theory Spec2Isabelle
  imports Complex_Main "HOL-Library.Multiset"
begin

section \<open>Python values and errors\<close>

text \<open>
  The exceptions raised by the functions of \<^verbatim>\<open>dms_tools2/pacbio.py\<close> that are modelled
  here. A raising call is the value \<open>Inl e\<close>, a returning call is \<open>Inr v\<close>.
\<close>

datatype error =
    AssertionError
  | ValueError
  | TypeError
  | RuntimeError
  | NameError
  | KeyError
  | AttributeError
  | IndexError
  | RegexError
  | ExternalError

text \<open>
  A Python float is either the not-a-number value or a number. Rounding is not
  modelled: finite floats are real numbers.
\<close>

datatype pyfloat = NaN | Fin real

text \<open>Sequencing of calls that may raise.\<close>

definition ebind :: "error + 'a \<Rightarrow> ('a \<Rightarrow> error + 'b) \<Rightarrow> error + 'b" where
  "ebind x f = (case x of Inl e \<Rightarrow> Inl e | Inr v \<Rightarrow> f v)"

text \<open>
  The keys of a dictionary built by inserting the elements of a list in order: each
  element once, at the place of its first occurrence.
\<close>

definition dict_keys :: "'a list \<Rightarrow> 'a list" where
  "dict_keys xs = foldl (\<lambda>acc x. if x \<in> set acc then acc else acc @ [x]) [] xs"

section \<open>The accuracy model: \<^verbatim>\<open>qvalsToAccuracy\<close>\<close>

text \<open>
  The argument \<^verbatim>\<open>qvals\<close> is a number, a Python list, a numpy array or a string.
\<close>

datatype qvals_arg =
    QNumber int
  | QList "int list"
  | QArray "int list"
  | QStr string

text \<open>\<^verbatim>\<open>len(qvals)\<close>: a number has no length.\<close>

fun py_len :: "qvals_arg \<Rightarrow> error + nat" where
  "py_len (QNumber q) = Inl TypeError"
| "py_len (QList qs) = Inr (length qs)"
| "py_len (QArray qs) = Inr (length qs)"
| "py_len (QStr s) = Inr (length s)"

text \<open>\<^verbatim>\<open>(1 - 10**(qvals / -10)).sum() / len(qvals)\<close> on a numpy array.\<close>

definition array_accuracy :: "int list \<Rightarrow> real" where
  "array_accuracy qs =
     sum_list (map (\<lambda>q. 1 - 10 powr (real_of_int q / (- 10))) qs) / real (length qs)"

text \<open>\<^verbatim>\<open>ord(q) - 33\<close> for each character of a string.\<close>

definition sanger_decode :: "string \<Rightarrow> int list" where
  "sanger_decode s = map (\<lambda>q. int (of_char q) - 33) s"

definition qvalsToAccuracy :: "qvals_arg \<Rightarrow> string \<Rightarrow> error + pyfloat" where
  "qvalsToAccuracy qvals encoding =
     (let qvals1 =
            (if encoding = ''numbers'' then
               (case qvals of
                  QNumber q \<Rightarrow> QArray [q]
                | QList qs \<Rightarrow> QArray qs
                | _ \<Rightarrow> qvals)
             else qvals)
      in case py_len qvals1 of
           Inl e \<Rightarrow> Inl e
         | Inr n \<Rightarrow>
             if n = 0 then Inr NaN
             else if encoding = ''numbers'' then
               (case qvals1 of
                  QArray qs \<Rightarrow> Inr (Fin (array_accuracy qs))
                | _ \<Rightarrow> Inl TypeError)
             else if encoding = ''sanger'' then
               (case qvals1 of
                  QStr s \<Rightarrow> Inr (Fin (array_accuracy (sanger_decode s)))
                | _ \<Rightarrow> Inl TypeError)
             else Inl RuntimeError)"

section \<open>The IUPAC expander: \<^verbatim>\<open>re_expandIUPAC\<close>\<close>

text \<open>
  The group-name matcher is the regular expression \<^verbatim>\<open>\(\?P<[^>]*>\<close>. A match at the
  start of a string is the four characters \<^verbatim>\<open>(?P<\<close>, then the longest run of
  characters other than \<^verbatim>\<open>>\<close>, then \<^verbatim>\<open>>\<close>; the result is the length of the match.
\<close>

definition groupname_match :: "string \<Rightarrow> nat option" where
  "groupname_match s =
     (if take 4 s = ''(?P<'' \<and> CHR ''>'' \<in> set (drop 4 s)
      then Some (4 + length (takeWhile (\<lambda>c. c \<noteq> CHR ''>'') (drop 4 s)) + 1)
      else None)"

text \<open>
  \<^verbatim>\<open>groupname_matcher.finditer(re_str)\<close>: the non-overlapping matches from left to right,
  as spans \<open>(start, end)\<close>. The first argument is the index in \<^verbatim>\<open>re_str\<close> of the head of
  the remaining string.
\<close>

function finditer :: "nat \<Rightarrow> string \<Rightarrow> (nat \<times> nat) list" where
  "finditer i [] = []"
| "finditer i (c # cs) =
     (case groupname_match (c # cs) of
        Some n \<Rightarrow> (i, i + n) # finditer (i + n) (drop n (c # cs))
      | None \<Rightarrow> finditer (Suc i) cs)"
  by pat_completeness auto
termination
  by (relation "measure (\<lambda>(i, s). length s)")
     (auto simp: groupname_match_def split: if_splits)

text \<open>
  The loop \<^verbatim>\<open>for m in finditer: for i in range(m.start(), m.end()): groupname_indices.add(i)\<close>.
\<close>

definition groupname_indices :: "string \<Rightarrow> nat set" where
  "groupname_indices re_str = (\<Union>(a, b) \<in> set (finditer 0 re_str). {a..<b})"

text \<open>
  The table \<^verbatim>\<open>dms_tools2.NT_TO_REGEXP\<close> is a dictionary from characters to strings; it is
  defined outside \<^verbatim>\<open>pacbio.py\<close> and is a parameter here.
\<close>

type_synonym nt_table = "char \<Rightarrow> string option"

definition re_expandIUPAC :: "nt_table \<Rightarrow> string \<Rightarrow> string" where
  "re_expandIUPAC NT_TO_REGEXP re_str =
     concat (map (\<lambda>(i, c).
                if i \<notin> groupname_indices re_str \<and> c \<in> dom NT_TO_REGEXP
                then the (NT_TO_REGEXP c)
                else [c])
             (enumerate 0 re_str))"

text \<open>
  The specification's reading of a group-name marker: index \<open>i\<close> of \<open>s\<close> lies in a span
  that starts with \<^verbatim>\<open>(?P<\<close> at some \<open>j\<close> and ends at the first \<^verbatim>\<open>>\<close> after these four
  characters, at \<open>k\<close>.
\<close>

definition in_marker :: "string \<Rightarrow> nat \<Rightarrow> bool" where
  "in_marker s i =
     (\<exists>j \<in> {0..i}. \<exists>k \<in> {i..<length s}.
        j + 4 \<le> k \<and> take 4 (drop j s) = ''(?P<'' \<and> s ! k = CHR ''>''
        \<and> (\<forall>l \<in> {j + 4..<k}. s ! l \<noteq> CHR ''>''))"

text \<open>The replacement of one character that is outside the markers.\<close>

definition nt_expand :: "nt_table \<Rightarrow> char \<Rightarrow> string" where
  "nt_expand tbl c = (case tbl c of Some cls \<Rightarrow> cls | None \<Rightarrow> [c])"

text \<open>The rewrite of one position, as the specification words it.\<close>

definition expand_at :: "nt_table \<Rightarrow> string \<Rightarrow> nat \<Rightarrow> string" where
  "expand_at tbl s i =
     (if in_marker s i then [s ! i]
      else case tbl (s ! i) of Some cls \<Rightarrow> cls | None \<Rightarrow> [s ! i])"

text \<open>
  Modelled from the spec: the table \<^verbatim>\<open>dms_tools2.NT_TO_REGEXP\<close> itself is not part of
  \<^verbatim>\<open>pacbio.py\<close>. The specification expands an ambiguous-nucleotide letter to its explicit
  character class (\<^verbatim>\<open>N\<close> to \<^verbatim>\<open>[ACGT]\<close>, as in the docstring of \<^verbatim>\<open>re_expandIUPAC\<close>); the
  other letters follow the IUPAC code. This table is used for the concrete examples only:
  the general theorems hold for every table.
\<close>

definition NT_TO_REGEXP_iupac :: nt_table where
  "NT_TO_REGEXP_iupac = map_of
     [(CHR ''A'', ''A''), (CHR ''C'', ''C''), (CHR ''G'', ''G''), (CHR ''T'', ''T''),
      (CHR ''R'', ''[AG]''), (CHR ''Y'', ''[CT]''), (CHR ''S'', ''[CG]''), (CHR ''W'', ''[AT]''),
      (CHR ''K'', ''[GT]''), (CHR ''M'', ''[AC]''), (CHR ''B'', ''[CGT]''), (CHR ''D'', ''[AGT]''),
      (CHR ''H'', ''[ACT]''), (CHR ''V'', ''[ACG]''), (CHR ''N'', ''[ACGT]'')]"

section \<open>The pattern matcher\<close>

text \<open>
  \<^verbatim>\<open>matchSeqs\<close> uses two things of a compiled pattern: \<^verbatim>\<open>matcher.search(s)\<close>, which
  returns a match object or \<^verbatim>\<open>None\<close>, and \<^verbatim>\<open>matcher.groupindex\<close>, whose keys are the
  group names. Of a match object it uses \<^verbatim>\<open>m.group(g)\<close>, \<^verbatim>\<open>m.start(g)\<close> and \<^verbatim>\<open>m.end(g)\<close>.
  A match object is given by the span of every group that took part in the match;
  \<^verbatim>\<open>m.group(g)\<close> is the searched string between \<^verbatim>\<open>m.start(g)\<close> and \<^verbatim>\<open>m.end(g)\<close>.
\<close>

type_synonym rmatch = "(string \<times> nat \<times> nat) list"

record matcher =
  search :: "string \<Rightarrow> rmatch option"
  groupindex :: "string list"

text \<open>\<^verbatim>\<open>m.start(g)\<close> and \<^verbatim>\<open>m.end(g)\<close>: \<open>-1\<close> for a group that took no part.\<close>

definition m_start :: "rmatch \<Rightarrow> string \<Rightarrow> int" where
  "m_start m g = (case map_of m g of None \<Rightarrow> - 1 | Some (a, b) \<Rightarrow> int a)"

definition m_end :: "rmatch \<Rightarrow> string \<Rightarrow> int" where
  "m_end m g = (case map_of m g of None \<Rightarrow> - 1 | Some (a, b) \<Rightarrow> int b)"

text \<open>Python's \<^verbatim>\<open>xs[a:b]\<close>, with negative bounds counted from the end.\<close>

definition py_slice :: "'a list \<Rightarrow> int \<Rightarrow> int \<Rightarrow> 'a list" where
  "py_slice xs a b =
     (let n = int (length xs);
          a' = (if a < 0 then max 0 (a + n) else min a n);
          b' = (if b < 0 then max 0 (b + n) else min b n)
      in take (nat (b' - a')) (drop (nat a') xs))"

subsection \<open>A backtracking matcher for a fragment of the pattern language\<close>

text \<open>
  The \<^verbatim>\<open>regex\<close> package is not part of the repository. The general theorems below take
  the compiler of patterns as a parameter. For the concrete scenarios a fragment of the
  pattern language is modelled: literal characters, character classes, the dot, groups
  (named, unnamed, non-capturing), alternation, the greedy quantifiers
  \<^verbatim>\<open>* + ? {n} {n,} {n,m}\<close> and the anchors \<^verbatim>\<open>^ $\<close>. Everything else (escapes, ranges in
  classes, lazy quantifiers, fuzzy matching) is refused by this compiler.
\<close>

datatype gkind = Capture "string option" | NonCapture

datatype regex =
    Chars "char list"
  | NotChars "char list"
  | Dot
  | Bol
  | Eol
  | Cat "regex list"
  | Alt "regex list"
  | Rep nat "nat option" regex
  | Grp gkind regex

datatype token =
    TChars "char list"
  | TNotChars "char list"
  | TDot
  | TBol
  | TEol
  | TOpen gkind
  | TClose
  | TBar
  | TRep nat "nat option"

text \<open>Decimal numbers in a quantifier \<^verbatim>\<open>{n,m}\<close>.\<close>

definition is_digit :: "char \<Rightarrow> bool" where
  "is_digit c = (c \<in> set ''0123456789'')"

definition digit_val :: "char \<Rightarrow> nat" where
  "digit_val c = of_char c - 48"

definition read_nat :: "string \<Rightarrow> nat option" where
  "read_nat ds =
     (if ds \<noteq> [] \<and> list_all is_digit ds
      then Some (foldl (\<lambda>n d. 10 * n + digit_val d) 0 ds)
      else None)"

definition read_bounds :: "string \<Rightarrow> (nat \<times> nat option) option" where
  "read_bounds body =
     (let lo = takeWhile (\<lambda>c. c \<noteq> CHR '','') body;
          rest = dropWhile (\<lambda>c. c \<noteq> CHR '','') body
      in case read_nat lo of
           None \<Rightarrow> None
         | Some n \<Rightarrow>
             if rest = [] then Some (n, Some n)
             else if tl rest = [] then Some (n, None)
             else (case read_nat (tl rest) of
                     None \<Rightarrow> None
                   | Some m \<Rightarrow> if n \<le> m then Some (n, Some m) else None))"

definition special_chars :: "char list" where
  "special_chars = [CHR 0x5C, CHR ''-'', CHR ''['', CHR '']'']"

text \<open>The lexer: one token per atom, parenthesis, bar or quantifier.\<close>

fun lex :: "string \<Rightarrow> error + token list" where
  "lex [] = Inr []"
| "lex (c # cs) =
     (if c = CHR ''('' then
        (if take 3 cs = ''?P<'' then
           (let name = takeWhile (\<lambda>x. x \<noteq> CHR ''>'') (drop 3 cs);
                rest = drop (length name) (drop 3 cs)
            in if rest = [] \<or> name = [] then Inl RegexError
               else (case lex (tl rest) of
                       Inl e \<Rightarrow> Inl e
                     | Inr ts \<Rightarrow> Inr (TOpen (Capture (Some name)) # ts)))
         else if take 2 cs = ''?:'' then
           (case lex (drop 2 cs) of
              Inl e \<Rightarrow> Inl e
            | Inr ts \<Rightarrow> Inr (TOpen NonCapture # ts))
         else if take 1 cs = ''?'' then Inl RegexError
         else (case lex cs of
                 Inl e \<Rightarrow> Inl e
               | Inr ts \<Rightarrow> Inr (TOpen (Capture None) # ts)))
      else if c = CHR ''['' then
        (let neg = (take 1 cs = ''^'');
             cs1 = (if neg then drop 1 cs else cs);
             body = takeWhile (\<lambda>x. x \<noteq> CHR '']'') cs1;
             rest = drop (length body) cs1
         in if rest = [] \<or> body = [] \<or> (\<exists>x \<in> set body. x \<in> set special_chars)
            then Inl RegexError
            else (case lex (tl rest) of
                    Inl e \<Rightarrow> Inl e
                  | Inr ts \<Rightarrow> Inr ((if neg then TNotChars body else TChars body) # ts)))
      else if c = CHR ''{'' then
        (let body = takeWhile (\<lambda>x. x \<noteq> CHR ''}'') cs;
             rest = drop (length body) cs
         in if rest = [] then Inl RegexError
            else (case read_bounds body of
                    None \<Rightarrow> Inl RegexError
                  | Some (lo, hi) \<Rightarrow>
                      (case lex (tl rest) of
                         Inl e \<Rightarrow> Inl e
                       | Inr ts \<Rightarrow> Inr (TRep lo hi # ts))))
      else if c = CHR 0x5C \<or> c = CHR '']'' \<or> c = CHR ''}'' then Inl RegexError
      else (case lex cs of
              Inl e \<Rightarrow> Inl e
            | Inr ts \<Rightarrow>
                Inr ((if c = CHR '')'' then TClose
                      else if c = CHR ''|'' then TBar
                      else if c = CHR ''*'' then TRep 0 None
                      else if c = CHR ''+'' then TRep 1 None
                      else if c = CHR ''?'' then TRep 0 (Some 1)
                      else if c = CHR ''.'' then TDot
                      else if c = CHR ''^'' then TBol
                      else if c = CHR ''$'' then TEol
                      else TChars [c]) # ts)))"

text \<open>
  The parser keeps the alternatives and the sequence of the group being read, and a
  stack of the enclosing groups.
\<close>

definition close_group :: "regex list \<Rightarrow> regex list \<Rightarrow> regex" where
  "close_group alts cur = Alt (alts @ [Cat cur])"

fun is_rep :: "regex \<Rightarrow> bool" where
  "is_rep (Rep lo hi r) = True"
| "is_rep r = False"

fun parse :: "(gkind \<times> regex list \<times> regex list) list \<Rightarrow> regex list \<Rightarrow> regex list
                \<Rightarrow> token list \<Rightarrow> error + regex" where
  "parse stack alts cur [] =
     (if stack = [] then Inr (close_group alts cur) else Inl RegexError)"
| "parse stack alts cur (TOpen k # ts) = parse ((k, alts, cur) # stack) [] [] ts"
| "parse stack alts cur (TClose # ts) =
     (case stack of
        [] \<Rightarrow> Inl RegexError
      | (k, alts', cur') # stack' \<Rightarrow>
          parse stack' alts' (cur' @ [Grp k (close_group alts cur)]) ts)"
| "parse stack alts cur (TBar # ts) = parse stack (alts @ [Cat cur]) [] ts"
| "parse stack alts cur (TRep lo hi # ts) =
     (if cur = [] \<or> is_rep (last cur) \<or> last cur = Bol \<or> last cur = Eol then Inl RegexError
      else parse stack alts (butlast cur @ [Rep lo hi (last cur)]) ts)"
| "parse stack alts cur (TChars cs # ts) = parse stack alts (cur @ [Chars cs]) ts"
| "parse stack alts cur (TNotChars cs # ts) = parse stack alts (cur @ [NotChars cs]) ts"
| "parse stack alts cur (TDot # ts) = parse stack alts (cur @ [Dot]) ts"
| "parse stack alts cur (TBol # ts) = parse stack alts (cur @ [Bol]) ts"
| "parse stack alts cur (TEol # ts) = parse stack alts (cur @ [Eol]) ts"

text \<open>The keys of \<^verbatim>\<open>groupindex\<close>: the group names, each once, in the order of the pattern.\<close>

fun token_names :: "token list \<Rightarrow> string list" where
  "token_names [] = []"
| "token_names (TOpen (Capture (Some n)) # ts) = n # token_names ts"
| "token_names (t # ts) = token_names ts"

text \<open>
  Matching by backtracking, as the list of all ways to match at a position, the
  preferred one first. A way is the end position and the group spans set so far.
  \<open>rep_ms\<close> is the greedy repetition of a sub-matcher; an iteration that is not needed
  for the lower bound and consumes nothing is cut, and the first argument bounds the
  depth.
\<close>

fun rep_ms :: "nat \<Rightarrow> (nat \<Rightarrow> rmatch \<Rightarrow> (nat \<times> rmatch) list) \<Rightarrow> nat \<Rightarrow> nat option
                 \<Rightarrow> nat \<Rightarrow> rmatch \<Rightarrow> (nat \<times> rmatch) list" where
  "rep_ms 0 f lo hi i c = (if lo = 0 then [(i, c)] else [])"
| "rep_ms (Suc fuel) f lo hi i c =
     (if hi = Some 0 then []
      else concat (map (\<lambda>(j, c').
                     if lo = 0 \<and> j = i then []
                     else rep_ms fuel f (lo - 1) (map_option (\<lambda>h. h - 1) hi) j c')
                   (f i c)))
     @ (if lo = 0 then [(i, c)] else [])"

fun seq_ms :: "(nat \<Rightarrow> rmatch \<Rightarrow> (nat \<times> rmatch) list) list \<Rightarrow> nat \<Rightarrow> rmatch \<Rightarrow> (nat \<times> rmatch) list" where
  "seq_ms [] i c = [(i, c)]"
| "seq_ms (f # fs) i c = concat (map (\<lambda>(j, c'). seq_ms fs j c') (f i c))"

fun ms :: "regex \<Rightarrow> string \<Rightarrow> nat \<Rightarrow> rmatch \<Rightarrow> (nat \<times> rmatch) list" where
  "ms (Chars cs) s i c = (if i < length s \<and> s ! i \<in> set cs then [(Suc i, c)] else [])"
| "ms (NotChars cs) s i c = (if i < length s \<and> s ! i \<notin> set cs then [(Suc i, c)] else [])"
| "ms Dot s i c = (if i < length s \<and> s ! i \<noteq> CHR 0x0A then [(Suc i, c)] else [])"
| "ms Bol s i c = (if i = 0 then [(i, c)] else [])"
| "ms Eol s i c =
     (if i = length s \<or> (Suc i = length s \<and> s ! i = CHR 0x0A) then [(i, c)] else [])"
| "ms (Cat rs) s i c = seq_ms (map (\<lambda>r. \<lambda>j c'. ms r s j c') rs) i c"
| "ms (Alt rs) s i c = concat (map (\<lambda>r. ms r s i c) rs)"
| "ms (Rep lo hi r) s i c = rep_ms (lo + length s + 1) (\<lambda>j c'. ms r s j c') lo hi i c"
| "ms (Grp k r) s i c =
     map (\<lambda>(j, c').
            (j, case k of
                  Capture (Some n) \<Rightarrow> (n, i, j) # filter (\<lambda>(n', sp). n' \<noteq> n) c'
                | _ \<Rightarrow> c'))
         (ms r s i c)"

text \<open>\<^verbatim>\<open>search\<close>: the preferred match at the leftmost start position that has one.\<close>

fun search_from :: "regex \<Rightarrow> string \<Rightarrow> nat list \<Rightarrow> rmatch option" where
  "search_from r s [] = None"
| "search_from r s (i # is) =
     (case ms r s i [] of
        [] \<Rightarrow> search_from r s is
      | (j, c) # alternatives \<Rightarrow> Some c)"

definition re_search :: "regex \<Rightarrow> string \<Rightarrow> rmatch option" where
  "re_search r s = search_from r s [0..<Suc (length s)]"

definition re_compile :: "string \<Rightarrow> error + matcher" where
  "re_compile pat =
     (case lex pat of
        Inl e \<Rightarrow> Inl e
      | Inr ts \<Rightarrow>
          (case parse [] [] [] ts of
             Inl e \<Rightarrow> Inl e
           | Inr r \<Rightarrow> Inr \<lparr>search = re_search r, groupindex = dict_keys (token_names ts)\<rparr>))"

section \<open>Data frames\<close>

text \<open>
  An alignment of \<^verbatim>\<open>dms_tools2.minimap2\<close>, with the attributes that \<^verbatim>\<open>alignSeqs\<close> reads.
\<close>

datatype Alignment =
  Alignment (target: string) (strand: int) (q_st: int) (q_en: int) (q_len: int)
            (r_st: int) (r_en: int) (r_len: int) (cigar_str: string)
            (additional: "Alignment list")

text \<open>The values held by the cells of a data frame.\<close>

datatype cell =
    CNone
  | CBool bool
  | CInt int
  | CFloat pyfloat
  | CStr string
  | CArray "int list"
  | CList "string list"
  | CAlign Alignment

text \<open>
  A data frame is its index and its columns in order, each column a name and one cell
  per row. A dictionary of lists, as \<^verbatim>\<open>match_d\<close> and \<^verbatim>\<open>align_d\<close>, has the same shape as
  the columns.
\<close>

type_synonym pydict = "(string \<times> cell list) list"

record dataframe =
  index_name :: "string option"
  index :: "cell list"
  columns :: pydict

definition nrows :: "dataframe \<Rightarrow> nat" where
  "nrows df = length (index df)"

definition column_names :: "dataframe \<Rightarrow> string list" where
  "column_names df = map fst (columns df)"

text \<open>The cell of column \<open>c\<close> in row \<open>i\<close>, if there is one.\<close>

definition get_cell :: "dataframe \<Rightarrow> string \<Rightarrow> nat \<Rightarrow> cell option" where
  "get_cell df c i =
     (case map_of (columns df) c of
        None \<Rightarrow> None
      | Some vs \<Rightarrow> if i < length vs then Some (vs ! i) else None)"

text \<open>
  A row as \<^verbatim>\<open>itertuples\<close> yields it: \<^verbatim>\<open>getattr(tup, c)\<close> raises for a name that is not a
  column.
\<close>

type_synonym row = "string \<Rightarrow> error + cell"

definition row_of :: "dataframe \<Rightarrow> nat \<Rightarrow> row" where
  "row_of df i c =
     (case get_cell df c i of None \<Rightarrow> Inl AttributeError | Some v \<Rightarrow> Inr v)"

definition itertuples :: "dataframe \<Rightarrow> row list" where
  "itertuples df = map (row_of df) [0..<nrows df]"

text \<open>\<^verbatim>\<open>{c: [] for c in newcols}\<close> and \<^verbatim>\<open>d[k].append(v)\<close>.\<close>

definition new_dict :: "string list \<Rightarrow> pydict" where
  "new_dict newcols = map (\<lambda>c. (c, [])) (dict_keys newcols)"

definition dict_append :: "pydict \<Rightarrow> string \<times> cell \<Rightarrow> pydict" where
  "dict_append d kv = map (\<lambda>(k, vs). if k = fst kv then (k, vs @ [snd kv]) else (k, vs)) d"

text \<open>The values appended to the list of key \<open>k\<close> by the appends of one row.\<close>

definition vals :: "string \<Rightarrow> (string \<times> cell) list \<Rightarrow> cell list" where
  "vals k items = map snd (filter (\<lambda>kv. fst kv = k) items)"

text \<open>
  The loop over the rows: the body gives the appends of one row in order; a raise in
  the body ends the loop.
\<close>

fun rows_loop :: "('r \<Rightarrow> error + (string \<times> cell) list) \<Rightarrow> 'r list \<Rightarrow> pydict \<Rightarrow> error + pydict" where
  "rows_loop body [] d = Inr d"
| "rows_loop body (r # rs) d =
     (case body r of
        Inl e \<Rightarrow> Inl e
      | Inr items \<Rightarrow> rows_loop body rs (foldl dict_append d items))"

text \<open>
  The end of both annotators: the index name must not be a key of the dictionary; the
  dictionary, with the index of \<open>df\<close>, becomes a data frame, for which all its lists must
  have one entry per row; the result is \<open>df\<close> without the columns in \<open>dup_cols\<close>, followed
  by the new columns.
\<close>

definition add_columns :: "dataframe \<Rightarrow> string set \<Rightarrow> pydict \<Rightarrow> error + dataframe" where
  "add_columns df dup_cols d =
     (if (case index_name df of None \<Rightarrow> False | Some n \<Rightarrow> n \<in> set (map fst d))
      then Inl AssertionError
      else if \<not> list_all (\<lambda>(k, vs). length vs = nrows df) d then Inl ValueError
      else Inr (df\<lparr>columns := filter (\<lambda>(k, vs). k \<notin> dup_cols) (columns df) @ d\<rparr>))"

section \<open>The dual-orientation annotator: \<^verbatim>\<open>matchSeqs\<close>\<close>

text \<open>
  What \<^verbatim>\<open>matchSeqs\<close> takes from outside \<^verbatim>\<open>pacbio.py\<close>: \<^verbatim>\<open>regex.compile\<close>,
  \<^verbatim>\<open>dms_tools2.utils.reverseComplement\<close> and the table \<^verbatim>\<open>dms_tools2.NT_TO_REGEXP\<close>. The first
  two may raise.
\<close>

record env =
  regex_compile :: "string \<Rightarrow> error + matcher"
  reverseComplement :: "string \<Rightarrow> error + string"
  NT_TO_REGEXP :: nt_table

text \<open>The keyword arguments of \<^verbatim>\<open>matchSeqs\<close> but \<^verbatim>\<open>overwrite\<close>.\<close>

record match_opts =
  add_polarity :: bool
  add_group_cols :: bool
  add_accuracy :: bool
  add_qvals :: bool
  expandIUPAC :: bool

definition default_match_opts :: match_opts where
  "default_match_opts =
     \<lparr>add_polarity = True, add_group_cols = True, add_accuracy = True, add_qvals = True,
      expandIUPAC = True\<rparr>"

definition match_groupnames :: "match_opts \<Rightarrow> matcher \<Rightarrow> string list" where
  "match_groupnames opts mt = (if add_group_cols opts then groupindex mt else [])"

definition match_newcols :: "string \<Rightarrow> match_opts \<Rightarrow> string list \<Rightarrow> string list" where
  "match_newcols match_col opts groupnames =
     [match_col]
     @ (if add_polarity opts then [match_col @ ''_polarity''] else [])
     @ (if add_group_cols opts then
          groupnames
          @ (if add_accuracy opts then map (\<lambda>g. g @ ''_accuracy'') groupnames else [])
          @ (if add_qvals opts then map (\<lambda>g. g @ ''_qvals'') groupnames else [])
        else [])"

text \<open>\<^verbatim>\<open>numpy.flip(qs, axis=0)\<close> and \<^verbatim>\<open>qs[a:b]\<close> on a cell that holds a numpy array.\<close>

definition np_flip :: "cell \<Rightarrow> error + cell" where
  "np_flip qs = (case qs of CArray xs \<Rightarrow> Inr (CArray (rev xs)) | _ \<Rightarrow> Inl TypeError)"

definition slice_cell :: "cell \<Rightarrow> int \<Rightarrow> int \<Rightarrow> error + int list" where
  "slice_cell qs a b = (case qs of CArray xs \<Rightarrow> Inr (py_slice xs a b) | _ \<Rightarrow> Inl TypeError)"

text \<open>\<^verbatim>\<open>m.group(g)\<close>: the matched substring, \<^verbatim>\<open>None\<close> for a group that took no part.\<close>

definition m_group :: "string \<Rightarrow> rmatch \<Rightarrow> string \<Rightarrow> cell" where
  "m_group s m g =
     (case map_of m g of
        None \<Rightarrow> CNone
      | Some (a, b) \<Rightarrow> CStr (py_slice s (int a) (int b)))"

text \<open>
  The appends for one group of a matched row; \<open>s\<close> is the string that was searched and
  \<open>qs\<close> the quality values in the same orientation.
\<close>

definition group_items :: "match_opts \<Rightarrow> string \<Rightarrow> rmatch \<Rightarrow> cell \<Rightarrow> string
                             \<Rightarrow> error + (string \<times> cell) list" where
  "group_items opts s m qs g =
     ebind (if add_qvals opts
            then ebind (slice_cell qs (m_start m g) (m_end m g))
                   (\<lambda>sl. Inr [(g @ ''_qvals'', CArray sl)])
            else Inr [])
       (\<lambda>qitems.
     ebind (if add_accuracy opts
            then ebind (slice_cell qs (m_start m g) (m_end m g))
                   (\<lambda>sl. ebind (qvalsToAccuracy (QArray sl) ''numbers'')
                   (\<lambda>acc. Inr [(g @ ''_accuracy'', CFloat acc)]))
            else Inr [])
       (\<lambda>aitems. Inr ([(g, m_group s m g)] @ qitems @ aitems)))"

fun groups_loop :: "(string \<Rightarrow> error + (string \<times> cell) list) \<Rightarrow> string list
                      \<Rightarrow> error + (string \<times> cell) list" where
  "groups_loop f [] = Inr []"
| "groups_loop f (g # gs) =
     ebind (f g) (\<lambda>items. ebind (groups_loop f gs) (\<lambda>items'. Inr (items @ items')))"

text \<open>The keys appended for one group, in the order of the loop body.\<close>

definition group_keys :: "match_opts \<Rightarrow> string \<Rightarrow> string list" where
  "group_keys opts g =
     [g] @ (if add_qvals opts then [g @ ''_qvals''] else [])
         @ (if add_accuracy opts then [g @ ''_accuracy''] else [])"

text \<open>The branch \<^verbatim>\<open>if m:\<close> of the loop body.\<close>

definition matched_items :: "string \<Rightarrow> match_opts \<Rightarrow> string list \<Rightarrow> int \<Rightarrow> string \<Rightarrow> rmatch
                               \<Rightarrow> cell \<Rightarrow> error + (string \<times> cell) list" where
  "matched_items match_col opts groupnames polarity s m qs =
     ebind (groups_loop (group_items opts s m qs) groupnames)
       (\<lambda>gitems.
          Inr ([(match_col, CBool True)]
               @ (if add_polarity opts then [(match_col @ ''_polarity'', CInt polarity)] else [])
               @ gitems))"

text \<open>The branch \<^verbatim>\<open>else:\<close> of the loop body: the sentinels.\<close>

definition unmatched_items :: "string \<Rightarrow> match_opts \<Rightarrow> string list \<Rightarrow> (string \<times> cell) list" where
  "unmatched_items match_col opts groupnames =
     [(match_col, CBool False)]
     @ (if add_polarity opts then [(match_col @ ''_polarity'', CInt 0)] else [])
     @ concat (map (\<lambda>g.
                 [(g, CStr [])]
                 @ (if add_qvals opts then [(g @ ''_qvals'', CArray [])] else [])
                 @ (if add_accuracy opts then [(g @ ''_accuracy'', CInt (- 1))] else []))
               groupnames)"

text \<open>The condition \<^verbatim>\<open>add_group_cols and (add_accuracy or add_qvals)\<close>.\<close>

definition use_qvals :: "match_opts \<Rightarrow> bool" where
  "use_qvals opts = (add_group_cols opts \<and> (add_accuracy opts \<or> add_qvals opts))"

text \<open>
  The body of the loop over the rows. The sequence must be a string; the quality
  values are read only when group columns with accuracies or quality values are asked
  for.
\<close>

definition match_row :: "env \<Rightarrow> matcher \<Rightarrow> string \<Rightarrow> string \<Rightarrow> match_opts \<Rightarrow> string list \<Rightarrow> row
                           \<Rightarrow> error + (string \<times> cell) list" where
  "match_row ev mt col_to_match match_col opts groupnames tup =
     ebind (tup col_to_match) (\<lambda>sc.
       case sc of
         CStr s \<Rightarrow>
           ebind (if use_qvals opts then tup (col_to_match @ ''_qvals'') else Inr CNone) (\<lambda>qs.
             case search mt s of
               Some m \<Rightarrow> matched_items match_col opts groupnames 1 s m qs
             | None \<Rightarrow>
                 ebind (reverseComplement ev s) (\<lambda>rc.
                 ebind (if use_qvals opts then np_flip qs else Inr qs) (\<lambda>qs'.
                   case search mt rc of
                     Some m \<Rightarrow> matched_items match_col opts groupnames (- 1) rc m qs'
                   | None \<Rightarrow> Inr (unmatched_items match_col opts groupnames))))
       | _ \<Rightarrow> Inl TypeError)"

definition matchSeqs :: "env \<Rightarrow> dataframe \<Rightarrow> string option \<Rightarrow> string \<Rightarrow> string \<Rightarrow> match_opts \<Rightarrow> bool
                           \<Rightarrow> error + dataframe" where
  "matchSeqs ev df match_str col_to_match match_col opts overwrite =
     (case match_str of
        None \<Rightarrow> Inr df
      | Some pat \<Rightarrow>
          if col_to_match \<notin> set (column_names df) then Inl AssertionError
          else
            ebind (regex_compile ev
                     (if expandIUPAC opts then re_expandIUPAC (NT_TO_REGEXP ev) pat else pat))
              (\<lambda>mt.
                 let groupnames = match_groupnames opts mt;
                     newcols = match_newcols match_col opts groupnames;
                     dup_cols = set newcols \<inter> set (column_names df)
                 in if add_group_cols opts \<and> \<not> distinct groupnames then Inl ValueError
                    else if use_qvals opts \<and> col_to_match @ ''_qvals'' \<notin> set (column_names df)
                      then Inl ValueError
                    else if \<not> overwrite \<and> dup_cols \<noteq> {} then Inl ValueError
                    else
                      ebind (rows_loop (match_row ev mt col_to_match match_col opts groupnames)
                               (itertuples df) (new_dict newcols))
                        (\<lambda>match_d. add_columns df dup_cols match_d)))"

text \<open>
  The sentinels of the group columns of row \<open>i\<close>, as the specification lists them: the
  empty string, the empty quality slice and the accuracy \<open>-1\<close>, for every group and every
  column that is asked for.
\<close>

fun is_minus_one :: "cell \<Rightarrow> bool" where
  "is_minus_one (CInt n) = (n = - 1)"
| "is_minus_one (CFloat (Fin x)) = (x = - 1)"
| "is_minus_one c = False"

definition group_sentinels :: "dataframe \<Rightarrow> match_opts \<Rightarrow> string list \<Rightarrow> nat \<Rightarrow> bool" where
  "group_sentinels df opts groupnames i =
     list_all (\<lambda>g.
        get_cell df g i = Some (CStr [])
        \<and> (add_qvals opts \<longrightarrow> get_cell df (g @ ''_qvals'') i = Some (CArray []))
        \<and> (add_accuracy opts \<longrightarrow>
              (case get_cell df (g @ ''_accuracy'') i of
                 None \<Rightarrow> False
               | Some c \<Rightarrow> is_minus_one c)))
       groupnames"

section \<open>The alignment annotator: \<^verbatim>\<open>alignSeqs\<close>\<close>

text \<open>
  The mapper, the target-variant caller and the mutation caller are objects of
  \<^verbatim>\<open>dms_tools2.minimap2\<close>; each is given by what \<^verbatim>\<open>alignSeqs\<close> uses of it.
  \<^verbatim>\<open>mapper.map\<close> takes the queries written to the query file, as pairs of name and
  sequence, and the name of the PAF file, and returns a dictionary from names to
  alignments. \<^verbatim>\<open>mapper.target_isoforms\<close> is a dictionary from a target to a set of targets.
\<close>

record mapper_obj =
  mapper_map :: "(cell \<times> cell) list \<Rightarrow> string option \<Rightarrow> error + (cell \<Rightarrow> Alignment option)"
  target_isoforms :: "string \<Rightarrow> string set option"

record targetvariants_obj =
  variantsites_min_acc :: "real option"
  tv_call :: "Alignment \<Rightarrow> cell \<Rightarrow> error + cell \<times> Alignment"

record mutationcaller_obj =
  mc_call :: "Alignment \<Rightarrow> error + (string \<Rightarrow> cell option)"

text \<open>The keyword arguments of \<^verbatim>\<open>alignSeqs\<close> but \<^verbatim>\<open>overwrite\<close>.\<close>

record align_opts =
  add_alignment :: bool
  add_target :: bool
  add_cigar :: bool
  add_n_trimmed :: bool
  add_n_additional :: bool
  add_n_additional_difftarget :: bool
  targetvariants :: "targetvariants_obj option"
  mutationcaller :: "mutationcaller_obj option"
  paf_file :: "string option"

definition mut_types :: "string list" where
  "mut_types = [''substitutions'', ''insertions'', ''deletions'']"

definition trim_suffixes :: "string list" where
  "trim_suffixes = [''query_start'', ''query_end'', ''target_start'', ''target_end'']"

definition align_newcols :: "string \<Rightarrow> align_opts \<Rightarrow> string list" where
  "align_newcols aligned_col opts =
     [aligned_col]
     @ (if add_alignment opts then [aligned_col @ ''_alignment''] else [])
     @ (if add_target opts then [aligned_col @ ''_target''] else [])
     @ (if add_cigar opts then [aligned_col @ ''_cigar''] else [])
     @ (if add_n_trimmed opts
        then map (\<lambda>suffix. aligned_col @ ''_n_trimmed_'' @ suffix) trim_suffixes else [])
     @ (if add_n_additional opts then [aligned_col @ ''_n_additional''] else [])
     @ (if add_n_additional_difftarget opts
        then [aligned_col @ ''_n_additional_difftarget''] else [])
     @ (if targetvariants opts \<noteq> None then [aligned_col @ ''_target_variant''] else [])
     @ (if mutationcaller opts \<noteq> None
        then map (\<lambda>mut_type. aligned_col @ ''_'' @ mut_type) mut_types else [])"

text \<open>
  \<^verbatim>\<open>len([a2.target for a2 in a.additional if a2.target not in
  mapper.target_isoforms[a.target]])\<close>: the dictionary is looked up once for each
  additional alignment, so a missing key raises only when there is one.
\<close>

definition n_additional_difftarget :: "mapper_obj \<Rightarrow> Alignment \<Rightarrow> error + int" where
  "n_additional_difftarget mapper a =
     (if additional a = [] then Inr 0
      else case target_isoforms mapper (target a) of
             None \<Rightarrow> Inl KeyError
           | Some isoforms \<Rightarrow>
               Inr (int (length (filter (\<lambda>a2. target a2 \<notin> isoforms) (additional a)))))"

text \<open>The appends of the mutation caller: \<^verbatim>\<open>muts[mut_type]\<close> for the three types.\<close>

fun mut_items :: "string \<Rightarrow> (string \<Rightarrow> cell option) \<Rightarrow> string list \<Rightarrow> error + (string \<times> cell) list" where
  "mut_items aligned_col muts [] = Inr []"
| "mut_items aligned_col muts (mut_type # types) =
     (case muts mut_type of
        None \<Rightarrow> Inl KeyError
      | Some v \<Rightarrow>
          ebind (mut_items aligned_col muts types)
            (\<lambda>items. Inr ((aligned_col @ ''_'' @ mut_type, v) # items)))"

text \<open>
  The branch \<^verbatim>\<open>if name in map_dict:\<close> of the loop body. The dictionary \<^verbatim>\<open>qvals\<close> is
  assigned only when \<^verbatim>\<open>targetvariants.variantsites_min_acc\<close> is not \<^verbatim>\<open>None\<close>; reading it
  otherwise raises. The argument \<open>qv\<close> is \<^verbatim>\<open>qvals[name]\<close> when the dictionary is assigned.
\<close>

definition aligned_items :: "mapper_obj \<Rightarrow> string \<Rightarrow> align_opts \<Rightarrow> cell option \<Rightarrow> Alignment
                               \<Rightarrow> error + (string \<times> cell) list" where
  "aligned_items mapper aligned_col opts qv a0 =
     (if strand a0 \<noteq> 1 then Inl AssertionError
      else
        ebind (case targetvariants opts of
                 None \<Rightarrow> Inr ([], a0)
               | Some tv \<Rightarrow>
                   (case qv of
                      None \<Rightarrow> Inl NameError
                    | Some q \<Rightarrow>
                        ebind (tv_call tv a0 q)
                          (\<lambda>(variant, a). Inr ([(aligned_col @ ''_target_variant'', variant)], a))))
          (\<lambda>(vitems, a).
        ebind (case mutationcaller opts of
                 None \<Rightarrow> Inr []
               | Some mc \<Rightarrow> ebind (mc_call mc a) (\<lambda>muts. mut_items aligned_col muts mut_types))
          (\<lambda>mitems.
        ebind (if add_n_additional_difftarget opts
               then ebind (n_additional_difftarget mapper a)
                      (\<lambda>n. Inr [(aligned_col @ ''_n_additional_difftarget'', CInt n)])
               else Inr [])
          (\<lambda>ditems.
             Inr (vitems @ mitems
                  @ [(aligned_col, CBool True)]
                  @ (if add_alignment opts then [(aligned_col @ ''_alignment'', CAlign a)] else [])
                  @ (if add_target opts then [(aligned_col @ ''_target'', CStr (target a))] else [])
                  @ (if add_cigar opts then [(aligned_col @ ''_cigar'', CStr (cigar_str a))] else [])
                  @ (if add_n_trimmed opts then
                       [(aligned_col @ ''_n_trimmed_'' @ ''query_start'', CInt (q_st a)),
                        (aligned_col @ ''_n_trimmed_'' @ ''query_end'', CInt (q_len a - q_en a)),
                        (aligned_col @ ''_n_trimmed_'' @ ''target_start'', CInt (r_st a)),
                        (aligned_col @ ''_n_trimmed_'' @ ''target_end'', CInt (r_len a - r_en a))]
                     else [])
                  @ (if add_n_additional opts
                     then [(aligned_col @ ''_n_additional'', CInt (int (length (additional a))))]
                     else [])
                  @ ditems)))))"

text \<open>The branch \<^verbatim>\<open>else:\<close> of the loop body: the sentinels.\<close>

definition unaligned_items :: "string \<Rightarrow> align_opts \<Rightarrow> (string \<times> cell) list" where
  "unaligned_items aligned_col opts =
     [(aligned_col, CBool False)]
     @ (if add_alignment opts then [(aligned_col @ ''_alignment'', CNone)] else [])
     @ (if add_target opts then [(aligned_col @ ''_target'', CStr [])] else [])
     @ (if add_cigar opts then [(aligned_col @ ''_cigar'', CStr [])] else [])
     @ (if add_n_trimmed opts
        then map (\<lambda>suffix. (aligned_col @ ''_n_trimmed_'' @ suffix, CInt (- 1))) trim_suffixes
        else [])
     @ (if add_n_additional opts then [(aligned_col @ ''_n_additional'', CInt (- 1))] else [])
     @ (if add_n_additional_difftarget opts
        then [(aligned_col @ ''_n_additional_difftarget'', CInt (- 1))] else [])
     @ (if targetvariants opts \<noteq> None then [(aligned_col @ ''_target_variant'', CStr [])] else [])
     @ (if mutationcaller opts \<noteq> None
        then map (\<lambda>mut_type. (aligned_col @ ''_'' @ mut_type, CList [])) mut_types
        else [])"

text \<open>
  The body of the loop \<^verbatim>\<open>for name in df.name\<close>. A row is given here by its name and by
  its cell of the quality column, when \<^verbatim>\<open>qvals\<close> is assigned.
\<close>

definition align_row :: "mapper_obj \<Rightarrow> (cell \<Rightarrow> Alignment option) \<Rightarrow> string \<Rightarrow> align_opts
                           \<Rightarrow> cell \<times> cell option \<Rightarrow> error + (string \<times> cell) list" where
  "align_row mapper map_dict aligned_col opts r =
     (case map_dict (fst r) of
        Some a \<Rightarrow> aligned_items mapper aligned_col opts (snd r) a
      | None \<Rightarrow> Inr (unaligned_items aligned_col opts))"

text \<open>
  \<^verbatim>\<open>qvals\<close> is assigned when a target-variant caller with \<^verbatim>\<open>variantsites_min_acc\<close> is
  given; the quality column must then exist.
\<close>

definition qvals_assigned :: "align_opts \<Rightarrow> bool" where
  "qvals_assigned opts =
     (case targetvariants opts of
        None \<Rightarrow> False
      | Some tv \<Rightarrow> variantsites_min_acc tv \<noteq> None)"

text \<open>
  The queries written to the query file: name and sequence of the rows whose query is
  not the empty string.
\<close>

definition align_queries :: "dataframe \<Rightarrow> string \<Rightarrow> cell list \<Rightarrow> (cell \<times> cell) list" where
  "align_queries df query_col names =
     filter (\<lambda>(n, q). q \<noteq> CStr []) (zip names (the (map_of (columns df) query_col)))"

text \<open>The rows of the loop \<^verbatim>\<open>for name in df.name\<close>.\<close>

definition align_rows :: "dataframe \<Rightarrow> string \<Rightarrow> align_opts \<Rightarrow> cell list \<Rightarrow> (cell \<times> cell option) list" where
  "align_rows df query_col opts names =
     map (\<lambda>i. (names ! i,
                if qvals_assigned opts then get_cell df (query_col @ ''_qvals'') i else None))
         [0..<length names]"

definition alignSeqs :: "dataframe \<Rightarrow> mapper_obj \<Rightarrow> string \<Rightarrow> string \<Rightarrow> align_opts \<Rightarrow> bool
                           \<Rightarrow> error + dataframe" where
  "alignSeqs df mapper query_col aligned_col opts overwrite =
     (let newcols = align_newcols aligned_col opts;
          dup_cols = set newcols \<inter> set (column_names df)
      in if query_col \<notin> set (column_names df) then Inl AssertionError
         else if qvals_assigned opts \<and> query_col @ ''_qvals'' \<notin> set (column_names df)
           then Inl ValueError
         else if qvals_assigned opts \<and> ''name'' \<notin> set (column_names df)
           then Inl AttributeError
         else if \<not> distinct newcols then Inl AssertionError
         else if \<not> overwrite \<and> dup_cols \<noteq> {} then Inl ValueError
         else
           (case map_of (columns df) ''name'' of
              None \<Rightarrow> Inl AttributeError
            | Some names \<Rightarrow>
                if \<not> distinct names then Inl AssertionError
                else
                  ebind (mapper_map mapper (align_queries df query_col names) (paf_file opts))
                    (\<lambda>map_dict.
                  ebind (rows_loop (align_row mapper map_dict aligned_col opts)
                           (align_rows df query_col opts names) (new_dict newcols))
                    (\<lambda>align_d. add_columns df dup_cols align_d))))"

definition default_align_opts :: align_opts where
  "default_align_opts =
     \<lparr>add_alignment = True, add_target = True, add_cigar = True, add_n_trimmed = True,
      add_n_additional = True, add_n_additional_difftarget = True,
      targetvariants = None, mutationcaller = None, paf_file = None\<rparr>"



section \<open>A concrete environment and the example of the \<^verbatim>\<open>CCS\<close> docstring\<close>

text \<open>
  Modelled from the spec: \<^verbatim>\<open>dms_tools2.utils.reverseComplement\<close> is not part of
  \<^verbatim>\<open>pacbio.py\<close>. The specification only names the reverse complement of a sequence: the
  sequence reversed, with \<^verbatim>\<open>A\<close> and \<^verbatim>\<open>T\<close> exchanged, \<^verbatim>\<open>C\<close> and \<^verbatim>\<open>G\<close> exchanged and \<^verbatim>\<open>N\<close>
  kept; any other character raises here. It is used for the concrete examples only: the
  general theorems hold for every function \<^verbatim>\<open>reverseComplement\<close>.
\<close>

definition complement_nt :: "char \<Rightarrow> char option" where
  "complement_nt = map_of
     [(CHR ''A'', CHR ''T''), (CHR ''C'', CHR ''G''), (CHR ''G'', CHR ''C''),
      (CHR ''T'', CHR ''A''), (CHR ''N'', CHR ''N'')]"

definition reverseComplement_dna :: "string \<Rightarrow> error + string" where
  "reverseComplement_dna s =
     (if list_all (\<lambda>c. complement_nt c \<noteq> None) s
      then Inr (rev (map (\<lambda>c. the (complement_nt c)) s))
      else Inl ValueError)"

definition env0 :: env where
  "env0 = \<lparr>regex_compile = re_compile, reverseComplement = reverseComplement_dna,
           NT_TO_REGEXP = NT_TO_REGEXP_iupac\<rparr>"

text \<open>
  The three reads of the docstring of the class \<^verbatim>\<open>CCS\<close>, with the columns \<^verbatim>\<open>name\<close>,
  \<^verbatim>\<open>CCS\<close>, \<^verbatim>\<open>CCS_qvals\<close> and \<^verbatim>\<open>passes\<close>: a read with the barcode \<^verbatim>\<open>TTC\<close>, the reverse
  complement of a read with the barcode \<^verbatim>\<open>AGA\<close>, and a read without the termini.
\<close>

definition ccs_df :: dataframe where
  "ccs_df =
     \<lparr>index_name = None,
      index = [CInt 0, CInt 1, CInt 2],
      columns =
        [(''name'', [CStr ''barcoded_TTC_0.999_plus'', CStr ''barcoded_AGA_0.995_minus'',
                     CStr ''invalid'']),
         (''CCS'', [CStr ''ACGTTCACGCTT'', CStr ''TAAGTGCTCTCGTA'', CStr ''GGGCATGCACTT'']),
         (''CCS_qvals'',
            [CArray [30, 30, 30, 30, 30, 30, 30, 30, 30, 30, 30, 30],
             CArray [30, 30, 30, 30, 30, 30, 30, 24, 30, 20, 30, 30, 30, 30],
             CArray [30, 30, 30, 30, 30, 30, 30, 30, 30, 30, 30, 30]]),
         (''passes'', [CInt 6, CInt 6, CInt 6])]\<rparr>"

definition ccs_match_str :: string where
  "ccs_match_str = ''ACG(?P<barcode>N{3})(?P<read>N+)CTT''"

text \<open>The pattern after the expansion of \<^verbatim>\<open>N\<close>, as the parser reads it.\<close>

definition ccs_regex :: regex where
  "ccs_regex =
     Alt [Cat [Chars ''A'', Chars ''C'', Chars ''G'',
               Grp (Capture (Some ''barcode'')) (Alt [Cat [Rep 3 (Some 3) (Chars ''ACGT'')]]),
               Grp (Capture (Some ''read'')) (Alt [Cat [Rep 1 None (Chars ''ACGT'')]]),
               Chars ''C'', Chars ''T'', Chars ''T'']]"

definition ccs_matcher :: matcher where
  "ccs_matcher = \<lparr>search = re_search ccs_regex, groupindex = [''barcode'', ''read'']\<rparr>"

text \<open>The result of \<^verbatim>\<open>matchSeqs(ccs.df, match_str, 'CCS', 'barcoded')\<close>.\<close>

definition ccs_df_barcoded :: dataframe where
  "ccs_df_barcoded =
     ccs_df\<lparr>columns := columns ccs_df @
        [(''barcoded'', [CBool True, CBool True, CBool False]),
         (''barcoded_polarity'', [CInt 1, CInt (- 1), CInt 0]),
         (''barcode'', [CStr ''TTC'', CStr ''AGA'', CStr []]),
         (''read'', [CStr ''ACG'', CStr ''GCA'', CStr []]),
         (''barcode_accuracy'',
            [CFloat (Fin (array_accuracy [30, 30, 30])),
             CFloat (Fin (array_accuracy [20, 30, 24])), CInt (- 1)]),
         (''read_accuracy'',
            [CFloat (Fin (array_accuracy [30, 30, 30])),
             CFloat (Fin (array_accuracy [30, 30, 30])), CInt (- 1)]),
         (''barcode_qvals'', [CArray [30, 30, 30], CArray [20, 30, 24], CArray []]),
         (''read_qvals'', [CArray [30, 30, 30], CArray [30, 30, 30], CArray []])]\<rparr>"

text \<open>
  The first read alone, and two further calls on it: one with the pattern \<^verbatim>\<open>ACG\<close>, which
  has no named group, as \<^verbatim>\<open>matchAndAlignCCS\<close> calls \<^verbatim>\<open>matchSeqs\<close> for the termini; and one
  with a group that matches the empty string, without the accuracy columns.
\<close>

definition ccs_df1 :: dataframe where
  "ccs_df1 =
     \<lparr>index_name = None,
      index = [CInt 0],
      columns =
        [(''name'', [CStr ''barcoded_TTC_0.999_plus'']),
         (''CCS'', [CStr ''ACGTTCACGCTT'']),
         (''CCS_qvals'', [CArray [30, 30, 30, 30, 30, 30, 30, 30, 30, 30, 30, 30]])]\<rparr>"

definition termini_regex :: regex where
  "termini_regex = Alt [Cat [Chars ''A'', Chars ''C'', Chars ''G'']]"

definition termini_matcher :: matcher where
  "termini_matcher = \<lparr>search = re_search termini_regex, groupindex = []\<rparr>"

definition ccs_df1_termini :: dataframe where
  "ccs_df1_termini =
     ccs_df1\<lparr>columns := columns ccs_df1 @
        [(''has_termini5'', [CBool True]),
         (''has_termini5_polarity'', [CInt 1])]\<rparr>"

definition no_accuracy_opts :: match_opts where
  "no_accuracy_opts = default_match_opts\<lparr>add_accuracy := False\<rparr>"

definition purine_regex :: regex where
  "purine_regex =
     Alt [Cat [Grp (Capture (Some ''x'')) (Alt [Cat [Rep 0 None (Chars ''AG'')]]),
               Chars ''A'', Chars ''C'', Chars ''G'']]"

definition purine_matcher :: matcher where
  "purine_matcher = \<lparr>search = re_search purine_regex, groupindex = [''x'']\<rparr>"

definition ccs_df1_purine :: dataframe where
  "ccs_df1_purine =
     ccs_df1\<lparr>columns := columns ccs_df1 @
        [(''m'', [CBool True]),
         (''m_polarity'', [CInt 1]),
         (''x'', [CStr []]),
         (''x_qvals'', [CArray []])]\<rparr>"

text \<open>The table of the example with a stale column \<^verbatim>\<open>barcoded\<close>.\<close>

definition ccs_df_stale :: dataframe where
  "ccs_df_stale =
     ccs_df\<lparr>columns :=
        [(''name'', [CStr ''barcoded_TTC_0.999_plus'', CStr ''barcoded_AGA_0.995_minus'',
                     CStr ''invalid'']),
         (''barcoded'', [CNone, CNone, CNone]),
         (''CCS'', [CStr ''ACGTTCACGCTT'', CStr ''TAAGTGCTCTCGTA'', CStr ''GGGCATGCACTT'']),
         (''CCS_qvals'',
            [CArray [30, 30, 30, 30, 30, 30, 30, 30, 30, 30, 30, 30],
             CArray [30, 30, 30, 30, 30, 30, 30, 24, 30, 20, 30, 30, 30, 30],
             CArray [30, 30, 30, 30, 30, 30, 30, 30, 30, 30, 30, 30]]),
         (''passes'', [CInt 6, CInt 6, CInt 6])]\<rparr>"

section \<open>A concrete mapper and table for \<^verbatim>\<open>alignSeqs\<close>\<close>

text \<open>
  Three reads: the gene of the first aligns end to end, the gene of the second aligns
  with trimmed ends and has one additional alignment, and the third has no gene, so it
  is not sent to the mapper.
\<close>

definition aln_full :: Alignment where
  "aln_full = Alignment ''gene1'' 1 0 12 12 0 12 12 ''=ACGTTCACGCTT'' []"

definition aln_extra :: Alignment where
  "aln_extra = Alignment ''gene2'' 1 2 10 12 0 8 30 ''=GTTCACGC'' []"

definition aln_trimmed :: Alignment where
  "aln_trimmed = Alignment ''gene1'' 1 2 10 12 5 13 20 ''=GTTCACGC'' [aln_extra]"

definition aln_minus :: Alignment where
  "aln_minus = Alignment ''gene1'' (- 1) 0 12 12 0 12 12 ''=ACGTTCACGCTT'' []"

definition mapper0 :: mapper_obj where
  "mapper0 =
     \<lparr>mapper_map = (\<lambda>queries outfile.
        Inr (\<lambda>name. if name \<in> fst ` set queries
                      then map_of [(CStr ''read1'', aln_full), (CStr ''read2'', aln_trimmed)] name
                      else None)),
      target_isoforms = map_of [(''gene1'', {''gene1''}), (''gene2'', {''gene2''})]\<rparr>"

definition mapper_minus :: mapper_obj where
  "mapper_minus =
     \<lparr>mapper_map = (\<lambda>queries outfile.
        Inr (\<lambda>name. if name \<in> fst ` set queries
                      then map_of [(CStr ''read1'', aln_full), (CStr ''read2'', aln_minus)] name
                      else None)),
      target_isoforms = map_of [(''gene1'', {''gene1''})]\<rparr>"

definition aln_df :: dataframe where
  "aln_df =
     \<lparr>index_name = None,
      index = [CInt 0, CInt 1, CInt 2],
      columns =
        [(''name'', [CStr ''read1'', CStr ''read2'', CStr ''read3'']),
         (''gene'', [CStr ''ACGTTCACGCTT'', CStr ''TTGTTCACGCAA'', CStr []])]\<rparr>"

text \<open>What \<^verbatim>\<open>mapper0\<close> returns for the two queries of the table.\<close>

definition aln_map_dict :: "cell \<Rightarrow> Alignment option" where
  "aln_map_dict =
     (\<lambda>name. if name \<in> fst ` set [(CStr ''read1'', CStr ''ACGTTCACGCTT''),
                                      (CStr ''read2'', CStr ''TTGTTCACGCAA'')]
              then map_of [(CStr ''read1'', aln_full), (CStr ''read2'', aln_trimmed)] name
              else None)"

definition aln_new_columns :: pydict where
  "aln_new_columns =
     [(''gene_aligned'', [CBool True, CBool True, CBool False]),
      (''gene_aligned_alignment'', [CAlign aln_full, CAlign aln_trimmed, CNone]),
      (''gene_aligned_target'', [CStr ''gene1'', CStr ''gene1'', CStr []]),
      (''gene_aligned_cigar'', [CStr ''=ACGTTCACGCTT'', CStr ''=GTTCACGC'', CStr []]),
      (''gene_aligned_n_trimmed_query_start'', [CInt 0, CInt 2, CInt (- 1)]),
      (''gene_aligned_n_trimmed_query_end'', [CInt 0, CInt 2, CInt (- 1)]),
      (''gene_aligned_n_trimmed_target_start'', [CInt 0, CInt 5, CInt (- 1)]),
      (''gene_aligned_n_trimmed_target_end'', [CInt 0, CInt 7, CInt (- 1)]),
      (''gene_aligned_n_additional'', [CInt 0, CInt 1, CInt (- 1)]),
      (''gene_aligned_n_additional_difftarget'', [CInt 0, CInt 1, CInt (- 1)])]"

text \<open>The result of \<^verbatim>\<open>alignSeqs(df, mapper, 'gene', 'gene_aligned')\<close>.\<close>

definition aln_df_aligned :: dataframe where
  "aln_df_aligned = aln_df\<lparr>columns := columns aln_df @ aln_new_columns\<rparr>"

text \<open>The table of reads with a stale column \<^verbatim>\<open>gene_aligned\<close>.\<close>

definition aln_df_stale :: dataframe where
  "aln_df_stale =
     aln_df\<lparr>columns :=
        [(''gene_aligned'', [CNone, CNone, CNone]),
         (''name'', [CStr ''read1'', CStr ''read2'', CStr ''read3'']),
         (''gene'', [CStr ''ACGTTCACGCTT'', CStr ''TTGTTCACGCAA'', CStr []])]\<rparr>"

section \<open>Properties of the accuracy model\<close>

lemma array_accuracy_nth:
  "array_accuracy qs =
     (\<Sum>i<length qs. 1 - 10 powr (- (real_of_int (qs ! i) / 10))) / real (length qs)"
  unfolding array_accuracy_def
  by (simp add: sum_list_sum_nth atLeast0LessThan)

lemma array_accuracy_single:
  "array_accuracy [q] = 1 - 10 powr (- (real_of_int q / 10))"
  by (simp add: array_accuracy_def)

text \<open>
  Claim C4. On a non-empty quality vector \<open>Q\<^sub>1 .. Q\<^sub>n\<close> (given as a numpy array or as
  a list, and for \<open>n = 1\<close> also as a single number) the result is the arithmetic mean of
  \<open>1 - 10^(-Q\<^sub>i/10)\<close>. On an empty array, list or string the result is NaN for every
  value of \<^verbatim>\<open>encoding\<close>: it is neither zero nor an error.
\<close>

theorem qvalsToAccuracy_mean_and_empty:
  "(qs \<noteq> [] \<longrightarrow>
      qvalsToAccuracy (QArray qs) ''numbers'' =
        Inr (Fin ((\<Sum>i<length qs. 1 - 10 powr (- (real_of_int (qs ! i) / 10))) / real (length qs)))
    \<and> qvalsToAccuracy (QList qs) ''numbers'' = qvalsToAccuracy (QArray qs) ''numbers'')
   \<and> qvalsToAccuracy (QNumber q) ''numbers'' = Inr (Fin (1 - 10 powr (- (real_of_int q / 10))))
   \<and> qvalsToAccuracy (QArray []) encoding = Inr NaN
   \<and> qvalsToAccuracy (QList []) encoding = Inr NaN
   \<and> qvalsToAccuracy (QStr []) encoding = Inr NaN
   \<and> Inr NaN \<noteq> (Inr (Fin 0) :: error + pyfloat)
   \<and> (\<forall>e. Inr NaN \<noteq> (Inl e :: error + pyfloat))"
  by (simp add: qvalsToAccuracy_def Let_def array_accuracy_nth [symmetric] array_accuracy_single)

theorem qvalsToAccuracy_mean_and_empty_witness:
  "[10, 20] \<noteq> ([] :: int list)
   \<and> qvalsToAccuracy (QArray [10, 20]) ''numbers'' = Inr (Fin (189 / 200))
   \<and> qvalsToAccuracy (QList [10, 20]) ''numbers'' = Inr (Fin (189 / 200))
   \<and> qvalsToAccuracy (QArray []) ''sanger'' = Inr NaN"
  using qvalsToAccuracy_mean_and_empty [of "[10, 20]" 0 "''sanger''"]
  by (simp add: lessThan_Suc powr_minus)

text \<open>
  Claim C5. Scoring a quality string under the \<^verbatim>\<open>sanger\<close> encoding gives the same result
  as scoring, under the \<^verbatim>\<open>numbers\<close> encoding, the numeric vector of its code points
  minus 33.
\<close>

theorem qvalsToAccuracy_sanger_commutes:
  "qvalsToAccuracy (QStr s) ''sanger''
     = qvalsToAccuracy (QArray (map (\<lambda>c. int (of_char c) - 33) s)) ''numbers''"
  by (simp add: qvalsToAccuracy_def Let_def sanger_decode_def)

section \<open>Properties of the IUPAC expander\<close>

lemma gm_SomeD:
  assumes "groupname_match s = Some n"
  shows "5 \<le> n" "n \<le> length s" "take 4 s = ''(?P<''" "s ! (n - 1) = CHR ''>''"
        "\<And>l. 4 \<le> l \<Longrightarrow> l < n - 1 \<Longrightarrow> s ! l \<noteq> CHR ''>''"
proof -
  let ?r = "drop 4 s"
  let ?t = "takeWhile (\<lambda>c. c \<noteq> CHR ''>'') ?r"
  from assms have t4: "take 4 s = ''(?P<''" and mem: "CHR ''>'' \<in> set ?r"
    and n: "n = 4 + length ?t + 1"
    by (auto simp: groupname_match_def split: if_splits)
  from t4 have len4: "4 \<le> length s"
  proof -
    have "length (take 4 s) = 4" by (simp add: t4)
    then show ?thesis by simp
  qed
  have lt: "length ?t < length ?r"
  proof -
    have "?t \<noteq> ?r" using mem by (auto simp: takeWhile_eq_all_conv)
    then have "length ?t \<noteq> length ?r"
      by (metis takeWhile_eq_take take_all order_refl)
    then show ?thesis using length_takeWhile_le [of _ ?r] by (simp add: le_neq_implies_less)
  qed
  show "5 \<le> n" using n by simp
  show "n \<le> length s" using n lt by simp
  show "take 4 s = ''(?P<''" by (rule t4)
  have "?r ! length ?t = CHR ''>''"
    using lt nth_length_takeWhile [of "\<lambda>c. c \<noteq> CHR ''>''" ?r] by simp
  then show "s ! (n - 1) = CHR ''>''" using n lt len4 by (simp add: add.commute)
  fix l assume l: "4 \<le> l" "l < n - 1"
  then have "l - 4 < length ?t" using n by simp
  then have "?t ! (l - 4) \<noteq> CHR ''>''"
    using nth_mem [of "l - 4" ?t] set_takeWhileD [of "?t ! (l - 4)" "\<lambda>c. c \<noteq> CHR ''>''" ?r] by simp
  moreover have "?t ! (l - 4) = ?r ! (l - 4)"
    using \<open>l - 4 < length ?t\<close> by (rule takeWhile_nth)
  ultimately show "s ! l \<noteq> CHR ''>''" using l len4 lt n by simp
qed

lemma in_marker_iff:
  "in_marker s i \<longleftrightarrow>
     (\<exists>j k. j \<le> i \<and> i \<le> k \<and> k < length s \<and> j + 4 \<le> k
        \<and> take 4 (drop j s) = ''(?P<'' \<and> s ! k = CHR ''>''
        \<and> (\<forall>l. j + 4 \<le> l \<and> l < k \<longrightarrow> s ! l \<noteq> CHR ''>''))"
  unfolding in_marker_def by (auto simp: Bex_def Ball_def)

lemma take4_marker_nth:
  assumes "take 4 (drop j s) = ''(?P<''"
  shows "j + 4 \<le> length s" "s ! j \<noteq> CHR ''>''" "s ! (j + 1) \<noteq> CHR ''>''"
        "s ! (j + 2) \<noteq> CHR ''>''" "s ! (j + 3) \<noteq> CHR ''>''"
proof -
  have "length (take 4 (drop j s)) = 4" by (simp add: assms)
  then show len: "j + 4 \<le> length s" by simp
  have nth: "\<And>m. m < 4 \<Longrightarrow> s ! (j + m) = ''(?P<'' ! m"
  proof -
    fix m :: nat assume m: "m < 4"
    have "take 4 (drop j s) ! m = s ! (j + m)" using m len by simp
    then show "s ! (j + m) = ''(?P<'' ! m" by (simp add: assms)
  qed
  show "s ! j \<noteq> CHR ''>''" using nth [of 0] by simp
  show "s ! (j + 1) \<noteq> CHR ''>''" using nth [of 1] by simp
  show "s ! (j + 2) \<noteq> CHR ''>''" using nth [of 2] by simp
  show "s ! (j + 3) \<noteq> CHR ''>''" using nth [of 3] by simp
qed

lemma in_marker_nomatch:
  assumes "groupname_match (c # cs) = None"
  shows "in_marker (c # cs) p \<longleftrightarrow> 0 < p \<and> in_marker cs (p - 1)"
proof
  assume "in_marker (c # cs) p"
  then obtain j k where jk: "j \<le> p" "p \<le> k" "k < length (c # cs)" "j + 4 \<le> k"
      "take 4 (drop j (c # cs)) = ''(?P<''" "(c # cs) ! k = CHR ''>''"
      "\<forall>l. j + 4 \<le> l \<and> l < k \<longrightarrow> (c # cs) ! l \<noteq> CHR ''>''"
    unfolding in_marker_iff by blast
  have "j \<noteq> 0"
  proof
    assume "j = 0"
    with jk have t: "take 4 (c # cs) = ''(?P<''" by simp
    have "drop 4 (c # cs) ! (k - 4) \<in> set (drop 4 (c # cs))"
      using jk(3,4) \<open>j = 0\<close> by (intro nth_mem) simp
    moreover have "drop 4 (c # cs) ! (k - 4) = (c # cs) ! k"
      using jk(3,4) \<open>j = 0\<close> by simp
    ultimately have "(c # cs) ! k \<in> set (drop 4 (c # cs))" by simp
    with jk(6) t assms show False by (simp add: groupname_match_def)
  qed
  then obtain j' where j': "j = Suc j'" by (cases j) auto
  obtain k' where k': "k = Suc k'" using jk(4) by (cases k) auto
  have "0 < p" using jk(1) j' by simp
  moreover have "in_marker cs (p - 1)"
    unfolding in_marker_iff
  proof (intro exI conjI allI impI)
    show "j' \<le> p - 1" using jk(1) j' by simp
    show "p - 1 \<le> k'" using jk(2) k' by simp
    show "k' < length cs" using jk(3) k' by simp
    show "j' + 4 \<le> k'" using jk(4) j' k' by simp
    show "take 4 (drop j' cs) = ''(?P<''" using jk(5) j' by simp
    show "cs ! k' = CHR ''>''" using jk(6) k' by simp
    fix l assume "j' + 4 \<le> l \<and> l < k'"
    then show "cs ! l \<noteq> CHR ''>''" using jk(7) [rule_format, of "Suc l"] j' k' by simp
  qed
  ultimately show "0 < p \<and> in_marker cs (p - 1)" by simp
next
  assume a0: "0 < p \<and> in_marker cs (p - 1)"
  then have a: "0 < p" by simp
  from a0 obtain j k where jk: "j \<le> p - 1" "p - 1 \<le> k" "k < length cs" "j + 4 \<le> k"
      "take 4 (drop j cs) = ''(?P<''" "cs ! k = CHR ''>''"
      "\<forall>l. j + 4 \<le> l \<and> l < k \<longrightarrow> cs ! l \<noteq> CHR ''>''"
    unfolding in_marker_iff by blast
  show "in_marker (c # cs) p"
    unfolding in_marker_iff
  proof (intro exI conjI allI impI)
    show "Suc j \<le> p" using jk(1) a by arith
    show "p \<le> Suc k" using jk(2) by arith
    show "Suc k < length (c # cs)" using jk(3) by simp
    show "Suc j + 4 \<le> Suc k" using jk(4) by simp
    show "take 4 (drop (Suc j) (c # cs)) = ''(?P<''" using jk(5) by simp
    show "(c # cs) ! Suc k = CHR ''>''" using jk(6) by simp
    fix l assume l: "Suc j + 4 \<le> l \<and> l < Suc k"
    then obtain l' where "l = Suc l'" by (cases l) auto
    then show "(c # cs) ! l \<noteq> CHR ''>''" using jk(7) [rule_format, of l'] l by simp
  qed
qed

lemma in_marker_match:
  assumes gm: "groupname_match s = Some n"
  shows "in_marker s p \<longleftrightarrow> p < n \<or> (n \<le> p \<and> in_marker (drop n s) (p - n))"
proof
  note d = gm_SomeD [OF gm]
  assume "in_marker s p"
  then obtain j k where jk: "j \<le> p" "p \<le> k" "k < length s" "j + 4 \<le> k"
      "take 4 (drop j s) = ''(?P<''" "s ! k = CHR ''>''"
      "\<forall>l. j + 4 \<le> l \<and> l < k \<longrightarrow> s ! l \<noteq> CHR ''>''"
    unfolding in_marker_iff by blast
  show "p < n \<or> (n \<le> p \<and> in_marker (drop n s) (p - n))"
  proof (cases "p < n")
    case True
    then show ?thesis by simp
  next
    case False
    then have np: "n \<le> p" by simp
    have jn: "n \<le> j"
    proof (rule ccontr)
      assume "\<not> n \<le> j"
      then have "j \<le> n - 1" by simp
      moreover note t = take4_marker_nth [OF jk(5)]
      have "n - 1 \<noteq> j" "n - 1 \<noteq> j + 1" "n - 1 \<noteq> j + 2" "n - 1 \<noteq> j + 3"
        using t(2-5) d(4) by auto
      ultimately have "j + 4 \<le> n - 1" by arith
      moreover have "n - 1 < k" using np jk(2) d(1) by arith
      ultimately have "s ! (n - 1) \<noteq> CHR ''>''" using jk(7) by blast
      with d(4) show False by simp
    qed
    have "in_marker (drop n s) (p - n)"
      unfolding in_marker_iff
    proof (intro exI conjI allI impI)
      show "j - n \<le> p - n" using jk(1) by arith
      show "p - n \<le> k - n" using jk(2) by arith
      show "k - n < length (drop n s)" using jk(3,4) jn by simp
      show "j - n + 4 \<le> k - n" using jk(4) jn by simp
      show "take 4 (drop (j - n) (drop n s)) = ''(?P<''" using jk(5) jn by simp
      show "drop n s ! (k - n) = CHR ''>''" using jk(3,4,6) jn by simp
      fix l assume l: "j - n + 4 \<le> l \<and> l < k - n"
      then have "j + 4 \<le> n + l \<and> n + l < k" using jn by arith
      then have "s ! (n + l) \<noteq> CHR ''>''" using jk(7) by blast
      then show "drop n s ! l \<noteq> CHR ''>''" using d(2) by simp
    qed
    with np show ?thesis by simp
  qed
next
  note d = gm_SomeD [OF gm]
  assume a: "p < n \<or> (n \<le> p \<and> in_marker (drop n s) (p - n))"
  show "in_marker s p"
  proof (cases "p < n")
    case True
    show ?thesis
      unfolding in_marker_iff
    proof (intro exI conjI allI impI)
      show "0 \<le> p" by simp
      show "p \<le> n - 1" using True by simp
      show "n - 1 < length s" using d(1,2) by simp
      show "0 + 4 \<le> n - 1" using d(1) by simp
      show "take 4 (drop 0 s) = ''(?P<''" using d(3) by simp
      show "s ! (n - 1) = CHR ''>''" by (rule d(4))
      fix l assume "0 + 4 \<le> l \<and> l < n - 1"
      then show "s ! l \<noteq> CHR ''>''" using d(5) by simp
    qed
  next
    case False
    with a have np: "n \<le> p" and im: "in_marker (drop n s) (p - n)" by auto
    from im obtain j k where jk: "j \<le> p - n" "p - n \<le> k" "k < length (drop n s)" "j + 4 \<le> k"
        "take 4 (drop j (drop n s)) = ''(?P<''" "drop n s ! k = CHR ''>''"
        "\<forall>l. j + 4 \<le> l \<and> l < k \<longrightarrow> drop n s ! l \<noteq> CHR ''>''"
      unfolding in_marker_iff by blast
    show ?thesis
      unfolding in_marker_iff
    proof (intro exI conjI allI impI)
      show "n + j \<le> p" using jk(1) np by arith
      show "p \<le> n + k" using jk(2) by arith
      show "n + k < length s" using jk(3) by simp
      show "n + j + 4 \<le> n + k" using jk(4) by simp
      show "take 4 (drop (n + j) s) = ''(?P<''" using jk(5) by (simp add: add.commute)
      show "s ! (n + k) = CHR ''>''" using jk(3,6) d(2) by simp
      fix l assume l: "n + j + 4 \<le> l \<and> l < n + k"
      then have "j + 4 \<le> l - n \<and> l - n < k" by arith
      then have "drop n s ! (l - n) \<noteq> CHR ''>''" using jk(7) by blast
      then show "s ! l \<noteq> CHR ''>''" using l d(2) by simp
    qed
  qed
qed

lemma in_marker_Nil: "\<not> in_marker [] p"
  by (simp add: in_marker_iff)

lemma finditer_spans:
  "p \<in> (\<Union>(a, b) \<in> set (finditer off s). {a..<b}) \<longleftrightarrow> off \<le> p \<and> in_marker s (p - off)"
proof (induction off s rule: finditer.induct)
  case (1 i)
  show ?case by (simp add: in_marker_Nil)
next
  case (2 i c cs)
  show ?case
  proof (cases "groupname_match (c # cs)")
    case None
    have "p \<in> (\<Union>(a, b) \<in> set (finditer i (c # cs)). {a..<b})
            \<longleftrightarrow> Suc i \<le> p \<and> in_marker cs (p - Suc i)"
      using None "2.IH"(1) [OF None] by simp
    also have "\<dots> \<longleftrightarrow> i \<le> p \<and> in_marker (c # cs) (p - i)"
      by (auto simp: in_marker_nomatch [OF None])
    finally show ?thesis .
  next
    case (Some n)
    have "p \<in> (\<Union>(a, b) \<in> set (finditer i (c # cs)). {a..<b})
            \<longleftrightarrow> (i \<le> p \<and> p < i + n)
               \<or> (i + n \<le> p \<and> in_marker (drop n (c # cs)) (p - (i + n)))"
      using Some "2.IH"(2) [OF Some] by simp
    also have "\<dots> \<longleftrightarrow> i \<le> p \<and> in_marker (c # cs) (p - i)"
      by (auto simp: in_marker_match [OF Some])
    finally show ?thesis .
  qed
qed

lemma groupname_indices_iff: "p \<in> groupname_indices s \<longleftrightarrow> in_marker s p"
  unfolding groupname_indices_def using finditer_spans [of p 0 s] by simp

lemma re_expandIUPAC_expand_at:
  "re_expandIUPAC tbl s = concat (map (expand_at tbl s) [0..<length s])"
proof -
  have "map (\<lambda>(i, c). if i \<notin> groupname_indices s \<and> c \<in> dom tbl then the (tbl c) else [c])
          (enumerate 0 s) = map (expand_at tbl s) [0..<length s]"
    by (rule nth_equalityI)
       (auto simp: nth_enumerate_eq expand_at_def groupname_indices_iff split: option.splits)
  then show ?thesis by (simp add: re_expandIUPAC_def)
qed

lemma filter_expand_at:
  assumes "X \<inter> dom tbl = {}" "\<forall>cls \<in> ran tbl. set cls \<inter> X = {}"
  shows "filter (\<lambda>c. c \<in> X) (expand_at tbl s i) = filter (\<lambda>c. c \<in> X) [s ! i]"
proof (cases "tbl (s ! i)")
  case None
  then show ?thesis by (simp add: expand_at_def)
next
  case (Some cls)
  then have "s ! i \<notin> X" using assms(1) by auto
  moreover have "set cls \<inter> X = {}" using assms(2) Some by (auto simp: ran_def)
  then have "filter (\<lambda>c. c \<in> X) cls = []" by (auto simp: filter_empty_conv)
  ultimately show ?thesis using Some by (simp add: expand_at_def)
qed

lemma concat_filter_single:
  "concat (map (\<lambda>i. filter P [f i]) xs) = filter P (map f xs)"
  by (induction xs) simp_all

lemma filter_re_expandIUPAC:
  assumes "X \<inter> dom tbl = {}" "\<forall>cls \<in> ran tbl. set cls \<inter> X = {}"
  shows "filter (\<lambda>c. c \<in> X) (re_expandIUPAC tbl s) = filter (\<lambda>c. c \<in> X) s"
proof -
  have "filter (\<lambda>c. c \<in> X) (re_expandIUPAC tbl s)
          = concat (map (\<lambda>i. filter (\<lambda>c. c \<in> X) (expand_at tbl s i)) [0..<length s])"
    by (simp add: re_expandIUPAC_expand_at filter_concat comp_def)
  also have "\<dots> = concat (map (\<lambda>i. filter (\<lambda>c. c \<in> X) [s ! i]) [0..<length s])"
    by (simp only: filter_expand_at [OF assms])
  also have "\<dots> = filter (\<lambda>c. c \<in> X) (map (\<lambda>i. s ! i) [0..<length s])"
    by (rule concat_filter_single)
  also have "map (\<lambda>i. s ! i) [0..<length s] = s" by (rule map_nth)
  finally show ?thesis .
qed

text \<open>
  Claim C6. For every table and every pattern string, \<^verbatim>\<open>re_expandIUPAC\<close> rewrites the
  pattern position by position: a character inside the span of a group-name marker
  \<^verbatim>\<open>(?P<...>\<close> is kept, also when it is a key of the table; a character outside the markers
  that is a key of the table is replaced by its class; every other character is kept.
  Hence the characters that are neither keys of the table nor occur in its classes
  (parentheses, quantifiers, digits, the marker characters) are the same, in the same
  order, before and after the expansion.
\<close>

theorem re_expandIUPAC_rewrite:
  "re_expandIUPAC tbl s =
     concat (map (\<lambda>i. if in_marker s i then [s ! i]
                        else case tbl (s ! i) of Some cls \<Rightarrow> cls | None \<Rightarrow> [s ! i])
                 [0..<length s])
   \<and> (X \<inter> dom tbl = {} \<and> X \<inter> \<Union>(set ` ran tbl) = {}
        \<longrightarrow> filter (\<lambda>c. c \<in> X) (re_expandIUPAC tbl s) = filter (\<lambda>c. c \<in> X) s)"
proof -
  have "X \<inter> \<Union>(set ` ran tbl) = {} \<Longrightarrow> \<forall>cls \<in> ran tbl. set cls \<inter> X = {}"
    by auto
  then show ?thesis
    using re_expandIUPAC_expand_at [of tbl s] filter_re_expandIUPAC [of X tbl s]
    unfolding expand_at_def by blast
qed

lemma re_expandIUPAC_docstring:
  "re_expandIUPAC NT_TO_REGEXP_iupac ''^(?P<termini5>ATG)(?P<cDNA>N+)A+(?P<barcode>N{4})$''
     = ''^(?P<termini5>ATG)(?P<cDNA>[ACGT]+)A+(?P<barcode>[ACGT]{4})$''"
  by code_simp

lemma dom_iupac: "dom NT_TO_REGEXP_iupac = set ''ACGTRYSWKMBDHVN''"
  unfolding NT_TO_REGEXP_iupac_def by (simp add: dom_map_of_conv_image_fst)

lemma ran_iupac: "\<Union>(set ` ran NT_TO_REGEXP_iupac) = set ''ACGT[]''"
  unfolding NT_TO_REGEXP_iupac_def by (subst ran_distinct) auto

theorem re_expandIUPAC_rewrite_witness:
  "concat (map (\<lambda>i. if in_marker ''^(?P<termini5>ATG)(?P<cDNA>N+)A+(?P<barcode>N{4})$'' i
                     then [''^(?P<termini5>ATG)(?P<cDNA>N+)A+(?P<barcode>N{4})$'' ! i]
                     else case NT_TO_REGEXP_iupac (''^(?P<termini5>ATG)(?P<cDNA>N+)A+(?P<barcode>N{4})$'' ! i) of
                            Some cls \<Rightarrow> cls
                          | None \<Rightarrow> [''^(?P<termini5>ATG)(?P<cDNA>N+)A+(?P<barcode>N{4})$'' ! i])
               [0..<length ''^(?P<termini5>ATG)(?P<cDNA>N+)A+(?P<barcode>N{4})$''])
     = ''^(?P<termini5>ATG)(?P<cDNA>[ACGT]+)A+(?P<barcode>[ACGT]{4})$''
   \<and> set ''()?<>+{}$^4PDN'' \<inter> dom NT_TO_REGEXP_iupac \<noteq> {}
   \<and> set ''()?<>+{}$^4P'' \<inter> dom NT_TO_REGEXP_iupac = {}
   \<and> set ''()?<>+{}$^4P'' \<inter> \<Union>(set ` ran NT_TO_REGEXP_iupac) = {}
   \<and> filter (\<lambda>c. c \<in> set ''()?<>+{}$^4P'')
         (re_expandIUPAC NT_TO_REGEXP_iupac ''^(?P<termini5>ATG)(?P<cDNA>N+)A+(?P<barcode>N{4})$'')
       = ''^(?P<>)(?P<>+)+(?P<>{4})$''"
proof -
  let ?s = "''^(?P<termini5>ATG)(?P<cDNA>N+)A+(?P<barcode>N{4})$''"
  let ?X = "set ''()?<>+{}$^4P''"
  note t = re_expandIUPAC_rewrite [of NT_TO_REGEXP_iupac ?s ?X]
  have a: "?X \<inter> dom NT_TO_REGEXP_iupac = {}" by (simp add: dom_iupac)
  have b: "?X \<inter> \<Union>(set ` ran NT_TO_REGEXP_iupac) = {}" by (simp add: ran_iupac)
  have c: "set ''()?<>+{}$^4PDN'' \<inter> dom NT_TO_REGEXP_iupac \<noteq> {}" by (simp add: dom_iupac)
  have d: "filter (\<lambda>c. c \<in> ?X) (re_expandIUPAC NT_TO_REGEXP_iupac ?s) = filter (\<lambda>c. c \<in> ?X) ?s"
    using t a b by blast
  have e: "filter (\<lambda>c. c \<in> ?X) ?s = ''^(?P<>)(?P<>+)+(?P<>{4})$''" by simp
  from t have f: "re_expandIUPAC NT_TO_REGEXP_iupac ?s = concat (map (\<lambda>i. if in_marker ?s i
                     then [?s ! i]
                     else case NT_TO_REGEXP_iupac (?s ! i) of
                            Some cls \<Rightarrow> cls
                          | None \<Rightarrow> [?s ! i])
               [0..<length ?s])" by (rule conjunct1)
  show ?thesis
    by (intro conjI) (rule trans [OF f [symmetric] re_expandIUPAC_docstring], rule c, rule a, rule b,
        rule trans [OF d e])
qed

section \<open>Properties of the loop over the rows\<close>

lemma dict_keys_aux:
  "distinct acc \<Longrightarrow>
     distinct (foldl (\<lambda>acc x. if x \<in> set acc then acc else acc @ [x]) acc xs)
     \<and> set (foldl (\<lambda>acc x. if x \<in> set acc then acc else acc @ [x]) acc xs) = set acc \<union> set xs"
  by (induction xs arbitrary: acc) auto

lemma distinct_dict_keys: "distinct (dict_keys xs)"
  using dict_keys_aux [of "[]" xs] by (simp add: dict_keys_def)

lemma set_dict_keys: "set (dict_keys xs) = set xs"
  using dict_keys_aux [of "[]" xs] by (simp add: dict_keys_def)

lemma vals_simps:
  "vals k [] = []"
  "vals k (kv # items) = (if fst kv = k then snd kv # vals k items else vals k items)"
  "vals k (xs @ ys) = vals k xs @ vals k ys"
  by (simp_all add: vals_def)

lemma length_vals: "length (vals k items) = count (mset (map fst items)) k"
  by (induction items) (auto simp: vals_simps)

lemma keys_dict_append: "map fst (dict_append d kv) = map fst d"
  by (induction d) (auto simp: dict_append_def)

lemma keys_foldl_dict_append: "map fst (foldl dict_append d items) = map fst d"
  by (induction items arbitrary: d) (simp_all add: keys_dict_append)

lemma map_of_dict_append:
  "map_of (dict_append d kv) k =
     map_option (\<lambda>vs. if k = fst kv then vs @ [snd kv] else vs) (map_of d k)"
  by (induction d) (auto simp: dict_append_def)

lemma map_of_foldl_dict_append:
  "map_of (foldl dict_append d items) k = map_option (\<lambda>vs. vs @ vals k items) (map_of d k)"
proof (induction items arbitrary: d)
  case Nil
  show ?case by (simp add: vals_simps option.map_ident)
next
  case (Cons kv items)
  show ?case
    by (cases "map_of d k") (auto simp: Cons.IH map_of_dict_append vals_simps)
qed

lemma rows_loop_Inr:
  assumes "rows_loop body rows d = Inr d'"
  shows "map fst d' = map fst d
         \<and> (\<exists>itemss. length itemss = length rows
               \<and> (\<forall>j < length rows. body (rows ! j) = Inr (itemss ! j))
               \<and> (\<forall>k. map_of d' k = map_option (\<lambda>vs. vs @ concat (map (vals k) itemss)) (map_of d k)))"
  using assms
proof (induction rows arbitrary: d)
  case Nil
  then show ?case by (simp add: option.map_ident)
next
  case (Cons r rs)
  from Cons.prems obtain items where b: "body r = Inr items"
    and rest: "rows_loop body rs (foldl dict_append d items) = Inr d'"
    by (auto split: sum.splits)
  from Cons.IH [OF rest] obtain itemss where
    k: "map fst d' = map fst (foldl dict_append d items)"
    and l: "length itemss = length rs"
    and bs: "\<forall>j < length rs. body (rs ! j) = Inr (itemss ! j)"
    and m: "\<forall>k. map_of d' k = map_option (\<lambda>vs. vs @ concat (map (vals k) itemss))
                               (map_of (foldl dict_append d items) k)"
    by blast
  have "length (items # itemss) = length (r # rs)" using l by simp
  moreover have "\<forall>j < length (r # rs). body ((r # rs) ! j) = Inr ((items # itemss) ! j)"
    using b bs by (auto simp: nth_Cons split: nat.splits)
  moreover have "\<forall>k. map_of d' k = map_option (\<lambda>vs. vs @ concat (map (vals k) (items # itemss))) (map_of d k)"
    using m by (auto simp: map_of_foldl_dict_append option.map_comp comp_def)
  ultimately show ?case using k keys_foldl_dict_append by metis
qed

lemma map_of_new_dict:
  "map_of (new_dict newcols) k = (if k \<in> set newcols then Some [] else None)"
proof -
  have "map_of (map (\<lambda>c. (c, [])) ks) k = (if k \<in> set ks then Some [] else None)" for ks :: "string list"
    by (induction ks) auto
  from this [of "dict_keys newcols"] show ?thesis by (simp add: new_dict_def set_dict_keys)
qed

lemma keys_new_dict: "map fst (new_dict newcols) = dict_keys newcols"
  by (simp add: new_dict_def comp_def)

lemma length_concat_const:
  assumes "\<forall>xs \<in> set xss. length xs = c"
  shows "length (concat xss) = length xss * c"
  using assms by (induction xss) auto

lemma concat_singletons_nth:
  assumes "\<forall>xs \<in> set xss. length xs = 1" "i < length xss"
  shows "concat xss ! i = hd (xss ! i)" "length (concat xss) = length xss"
proof -
  have "concat xss = map hd xss"
    using assms(1)
  proof (induction xss)
    case Nil
    show ?case by simp
  next
    case (Cons xs xss)
    then have "length xs = 1" by simp
    then obtain x where "xs = [x]" by (cases xs) auto
    with Cons show ?case by simp
  qed
  then show "concat xss ! i = hd (xss ! i)" "length (concat xss) = length xss"
    using assms(2) by simp_all
qed

lemma loop_cells_core:
  assumes loop: "rows_loop body rows (new_dict newcols) = Inr d"
    and add: "add_columns df (set newcols \<inter> set (column_names df)) d = Inr df'"
    and keys: "\<And>j items. j < length rows \<Longrightarrow> body (rows ! j) = Inr items
                 \<Longrightarrow> mset (map fst items) = mset newcols"
    and i: "i < length rows"
    and cnt: "\<And>k. k \<in> set newcols \<Longrightarrow> count (mset newcols) k = 1"
  shows "\<exists>items. body (rows ! i) = Inr items
           \<and> (\<forall>k v. (k, v) \<in> set items \<longrightarrow> get_cell df' k i = Some v)"
    and "newcols \<noteq> [] \<Longrightarrow> length rows = nrows df"
proof -
  from rows_loop_Inr [OF loop] obtain itemss where
    kd: "map fst d = dict_keys newcols"
    and l: "length itemss = length rows"
    and bs: "\<forall>j < length rows. body (rows ! j) = Inr (itemss ! j)"
    and m: "\<forall>k. map_of d k = map_option (\<lambda>vs. vs @ concat (map (vals k) itemss))
                               (map_of (new_dict newcols) k)"
    by (auto simp: keys_new_dict)
  have col: "map_of d k = Some (concat (map (vals k) itemss))" if "k \<in> set newcols" for k
    using m that by (simp add: map_of_new_dict)
  from add have lens: "list_all (\<lambda>(k, vs). length vs = nrows df) d"
    and df': "df' = df\<lparr>columns := filter (\<lambda>(k, vs). k \<notin> set newcols \<inter> set (column_names df)) (columns df) @ d\<rparr>"
    by (auto simp: add_columns_def split: if_splits)
  have vlen: "length (vals k (itemss ! j)) = count (mset newcols) k" if "j < length rows" for j k
    using keys [OF that] bs that by (simp add: length_vals)
  have one: "\<forall>xs \<in> set (map (vals k) itemss). length xs = 1" if "k \<in> set newcols" for k
    using vlen cnt [OF that] l by (auto simp: in_set_conv_nth)
  have clen: "length (concat (map (vals k) itemss)) = length rows" if "k \<in> set newcols" for k
    using concat_singletons_nth(2) [OF one [OF that], of i] i l by simp
  show "length rows = nrows df" if "newcols \<noteq> []"
  proof -
    from that obtain k where k: "k \<in> set newcols" by (cases newcols) auto
    from col [OF k] have "(k, concat (map (vals k) itemss)) \<in> set d"
      by (rule map_of_SomeD)
    with lens have "length (concat (map (vals k) itemss)) = nrows df"
      by (auto simp: list_all_iff)
    with clen [OF k] show ?thesis by simp
  qed
  have "\<forall>k v. (k, v) \<in> set (itemss ! i) \<longrightarrow> get_cell df' k i = Some v"
  proof (intro allI impI)
    fix k v assume kv: "(k, v) \<in> set (itemss ! i)"
    have "k \<in> set (map fst (itemss ! i))" using kv by force
    then have "k \<in># mset (map fst (itemss ! i))" by simp
    then have kin: "k \<in> set newcols" using keys [OF i] bs i by (metis set_mset_mset)
    have "v \<in> set (vals k (itemss ! i))" using kv by (force simp: vals_def)
    moreover have "length (vals k (itemss ! i)) = 1" using vlen [OF i] cnt [OF kin] by simp
    ultimately have hd: "hd (vals k (itemss ! i)) = v"
      by (cases "vals k (itemss ! i)") auto
    have nth: "concat (map (vals k) itemss) ! i = v"
      using concat_singletons_nth(1) [OF one [OF kin], of i] i l hd by simp
    have "map_of (filter (\<lambda>(k, vs). k \<notin> set newcols \<inter> set (column_names df)) (columns df)) k = None"
      using kin by (force simp: map_of_eq_None_iff column_names_def image_iff)
    then have "map_of (columns df') k = Some (concat (map (vals k) itemss))"
      using col [OF kin] by (simp add: df' map_add_def map_of_append split: option.splits)
    then show "get_cell df' k i = Some v"
      using nth clen [OF kin] i by (simp add: get_cell_def)
  qed
  with bs i show "\<exists>items. body (rows ! i) = Inr items
           \<and> (\<forall>k v. (k, v) \<in> set items \<longrightarrow> get_cell df' k i = Some v)"
    by blast
qed

lemma loop_cells:
  assumes loop: "rows_loop body rows (new_dict newcols) = Inr d"
    and add: "add_columns df (set newcols \<inter> set (column_names df)) d = Inr df'"
    and len: "length rows = nrows df"
    and keys: "\<And>j items. j < length rows \<Longrightarrow> body (rows ! j) = Inr items
                 \<Longrightarrow> mset (map fst items) = mset newcols"
    and i: "i < length rows"
  shows "distinct newcols"
    and "\<exists>items. body (rows ! i) = Inr items
           \<and> (\<forall>k v. (k, v) \<in> set items \<longrightarrow> get_cell df' k i = Some v)"
proof -
  from rows_loop_Inr [OF loop] obtain itemss where
    l: "length itemss = length rows"
    and bs: "\<forall>j < length rows. body (rows ! j) = Inr (itemss ! j)"
    and m: "\<forall>k. map_of d k = map_option (\<lambda>vs. vs @ concat (map (vals k) itemss))
                               (map_of (new_dict newcols) k)"
    by auto
  have col: "map_of d k = Some (concat (map (vals k) itemss))" if "k \<in> set newcols" for k
    using m that by (simp add: map_of_new_dict)
  from add have lens: "list_all (\<lambda>(k, vs). length vs = nrows df) d"
    by (auto simp: add_columns_def split: if_splits)
  have vlen: "length (vals k (itemss ! j)) = count (mset newcols) k" if "j < length rows" for j k
    using keys [OF that] bs that by (simp add: length_vals)
  have collen: "length (concat (map (vals k) itemss)) = length rows * count (mset newcols) k" for k
  proof -
    have "\<forall>xs \<in> set (map (vals k) itemss). length xs = count (mset newcols) k"
      using vlen l by (auto simp: in_set_conv_nth)
    from length_concat_const [OF this] show ?thesis using l by simp
  qed
  have cnt: "count (mset newcols) k = 1" if "k \<in> set newcols" for k
  proof -
    from col [OF that] have "(k, concat (map (vals k) itemss)) \<in> set d"
      by (rule map_of_SomeD)
    with lens have "length (concat (map (vals k) itemss)) = nrows df"
      by (auto simp: list_all_iff)
    with collen [of k] len i show ?thesis by simp
  qed
  show "distinct newcols"
    using cnt by (simp add: distinct_count_atmost_1 count_eq_zero_iff)
  show "\<exists>items. body (rows ! i) = Inr items
           \<and> (\<forall>k v. (k, v) \<in> set items \<longrightarrow> get_cell df' k i = Some v)"
    by (rule loop_cells_core(1) [OF loop add keys i cnt])
qed

lemma loop_cells_distinct:
  assumes loop: "rows_loop body rows (new_dict newcols) = Inr d"
    and add: "add_columns df (set newcols \<inter> set (column_names df)) d = Inr df'"
    and keys: "\<And>j items. j < length rows \<Longrightarrow> body (rows ! j) = Inr items
                 \<Longrightarrow> mset (map fst items) = mset newcols"
    and i: "i < length rows"
    and dist: "distinct newcols" and ne: "newcols \<noteq> []"
  shows "\<exists>items. body (rows ! i) = Inr items
           \<and> (\<forall>k v. (k, v) \<in> set items \<longrightarrow> get_cell df' k i = Some v)"
    and "length rows = nrows df"
proof -
  have cnt: "count (mset newcols) k = 1" if "k \<in> set newcols" for k
    using dist that by (simp add: distinct_count_atmost_1)
  show "\<exists>items. body (rows ! i) = Inr items
           \<and> (\<forall>k v. (k, v) \<in> set items \<longrightarrow> get_cell df' k i = Some v)"
    by (rule loop_cells_core(1) [OF loop add keys i cnt])
  show "length rows = nrows df"
    by (rule loop_cells_core(2) [OF loop add keys i cnt ne])
qed

section \<open>Properties of \<^verbatim>\<open>matchSeqs\<close>\<close>

lemma ebind_simps [simp]:
  "ebind (Inl e) f = Inl e"
  "ebind (Inr v) f = f v"
  by (simp_all add: ebind_def)

lemma ebind_eq_Inr: "ebind x f = Inr y \<longleftrightarrow> (\<exists>v. x = Inr v \<and> f v = Inr y)"
  by (cases x) simp_all

lemma group_items_keys:
  "group_items opts s m qs g = Inr items \<Longrightarrow> map fst items = group_keys opts g"
  by (auto simp: group_items_def group_keys_def ebind_eq_Inr split: if_splits)

lemma groups_loop_keys:
  "groups_loop (group_items opts s m qs) gs = Inr items
     \<Longrightarrow> map fst items = concat (map (group_keys opts) gs)"
proof (induction gs arbitrary: items)
  case Nil
  then show ?case by simp
next
  case (Cons g gs)
  then show ?case by (auto simp: ebind_eq_Inr group_items_keys)
qed

lemma matched_items_keys:
  "matched_items match_col opts gs polarity s m qs = Inr items
     \<Longrightarrow> map fst items = [match_col] @ (if add_polarity opts then [match_col @ ''_polarity''] else [])
                            @ concat (map (group_keys opts) gs)"
  by (auto simp: matched_items_def ebind_eq_Inr groups_loop_keys)

lemma unmatched_items_keys:
  "map fst (unmatched_items match_col opts gs)
     = [match_col] @ (if add_polarity opts then [match_col @ ''_polarity''] else [])
       @ concat (map (group_keys opts) gs)"
proof -
  have "map fst (concat (map (\<lambda>g.
                 [(g, CStr [])]
                 @ (if add_qvals opts then [(g @ ''_qvals'', CArray [])] else [])
                 @ (if add_accuracy opts then [(g @ ''_accuracy'', CInt (- 1))] else [])) gs))
        = concat (map (group_keys opts) gs)"
    by (induction gs) (simp_all add: group_keys_def)
  then show ?thesis by (simp add: unmatched_items_def)
qed

lemma mset_group_keys:
  "mset (concat (map (group_keys opts) gs))
     = mset gs + (if add_accuracy opts then mset (map (\<lambda>g. g @ ''_accuracy'') gs) else {#})
               + (if add_qvals opts then mset (map (\<lambda>g. g @ ''_qvals'') gs) else {#})"
  by (induction gs) (simp_all add: group_keys_def)

lemma mset_row_keys:
  assumes "add_group_cols opts \<or> gs = []"
  shows "mset ([match_col] @ (if add_polarity opts then [match_col @ ''_polarity''] else [])
                @ concat (map (group_keys opts) gs))
         = mset (match_newcols match_col opts gs)"
  using assms by (auto simp: match_newcols_def mset_group_keys)

lemma match_row_cases:
  assumes "match_row ev mt col_to_match match_col opts gs tup = Inr items"
  obtains
    (forward) s qs m where
      "tup col_to_match = Inr (CStr s)"
      "(if use_qvals opts then tup (col_to_match @ ''_qvals'') else Inr CNone) = Inr qs"
      "search mt s = Some m"
      "matched_items match_col opts gs 1 s m qs = Inr items"
  | (reverse) s qs rc qs' m where
      "tup col_to_match = Inr (CStr s)"
      "(if use_qvals opts then tup (col_to_match @ ''_qvals'') else Inr CNone) = Inr qs"
      "search mt s = None"
      "reverseComplement ev s = Inr rc"
      "(if use_qvals opts then np_flip qs else Inr qs) = Inr qs'"
      "search mt rc = Some m"
      "matched_items match_col opts gs (- 1) rc m qs' = Inr items"
  | (unmatched) s qs rc qs' where
      "tup col_to_match = Inr (CStr s)"
      "(if use_qvals opts then tup (col_to_match @ ''_qvals'') else Inr CNone) = Inr qs"
      "search mt s = None"
      "reverseComplement ev s = Inr rc"
      "(if use_qvals opts then np_flip qs else Inr qs) = Inr qs'"
      "search mt rc = None"
      "items = unmatched_items match_col opts gs"
proof -
  from assms obtain sc where sc: "tup col_to_match = Inr sc"
    unfolding match_row_def by (auto simp: ebind_eq_Inr)
  from assms sc obtain s where s: "sc = CStr s"
    unfolding match_row_def by (cases sc) simp_all
  from assms sc s obtain qs where
    qs: "(if use_qvals opts then tup (col_to_match @ ''_qvals'') else Inr CNone) = Inr qs"
    and r1: "(case search mt s of
               Some m \<Rightarrow> matched_items match_col opts gs 1 s m qs
             | None \<Rightarrow>
                 ebind (reverseComplement ev s) (\<lambda>rc.
                 ebind (if use_qvals opts then np_flip qs else Inr qs) (\<lambda>qs'.
                   case search mt rc of
                     Some m \<Rightarrow> matched_items match_col opts gs (- 1) rc m qs'
                   | None \<Rightarrow> Inr (unmatched_items match_col opts gs)))) = Inr items"
    unfolding match_row_def by (auto simp: ebind_eq_Inr)
  show thesis
  proof (cases "search mt s")
    case (Some m)
    with r1 show thesis using forward [OF sc [unfolded s] qs Some] by simp
  next
    case None
    with r1 obtain rc qs' where rc: "reverseComplement ev s = Inr rc"
      and qs': "(if use_qvals opts then np_flip qs else Inr qs) = Inr qs'"
      and r2: "(case search mt rc of
                     Some m \<Rightarrow> matched_items match_col opts gs (- 1) rc m qs'
                   | None \<Rightarrow> Inr (unmatched_items match_col opts gs)) = Inr items"
      by (auto simp: ebind_eq_Inr)
    show thesis
    proof (cases "search mt rc")
      case (Some m)
      with r2 show thesis using reverse [OF sc [unfolded s] qs None rc qs' Some] by simp
    next
      case None2: None
      with r2 show thesis using unmatched [OF sc [unfolded s] qs None rc qs' None2] by simp
    qed
  qed
qed

lemma match_row_keys:
  assumes "match_row ev mt col_to_match match_col opts gs tup = Inr items"
    and "add_group_cols opts \<or> gs = []"
  shows "mset (map fst items) = mset (match_newcols match_col opts gs)"
proof -
  have "map fst items = [match_col] @ (if add_polarity opts then [match_col @ ''_polarity''] else [])
                            @ concat (map (group_keys opts) gs)"
    using assms(1)
  proof (cases rule: match_row_cases)
    case (forward s qs m)
    then show ?thesis by (simp only: matched_items_keys)
  next
    case (reverse s qs rc qs' m)
    then show ?thesis by (simp only: matched_items_keys)
  next
    case (unmatched s qs rc qs')
    then show ?thesis by (simp only: unmatched_items_keys)
  qed
  then show ?thesis using mset_row_keys [OF assms(2)] by simp
qed

lemma nrows_itertuples [simp]: "length (itertuples df) = nrows df"
  by (simp add: itertuples_def)

lemma nth_itertuples: "i < nrows df \<Longrightarrow> itertuples df ! i = row_of df i"
  by (simp add: itertuples_def)

lemma matchSeqs_Inr:
  assumes "matchSeqs ev df (Some pat) col_to_match match_col opts overwrite = Inr df'"
  obtains mt d where
    "col_to_match \<in> set (column_names df)"
    "regex_compile ev (if expandIUPAC opts then re_expandIUPAC (NT_TO_REGEXP ev) pat else pat) = Inr mt"
    "overwrite \<or> set (match_newcols match_col opts (match_groupnames opts mt)) \<inter> set (column_names df) = {}"
    "rows_loop (match_row ev mt col_to_match match_col opts (match_groupnames opts mt))
       (itertuples df) (new_dict (match_newcols match_col opts (match_groupnames opts mt))) = Inr d"
    "add_columns df (set (match_newcols match_col opts (match_groupnames opts mt))
                       \<inter> set (column_names df)) d = Inr df'"
  using assms unfolding matchSeqs_def
  by (auto simp: ebind_eq_Inr Let_def split: if_splits)

lemma matchSeqs_row:
  assumes ok: "matchSeqs ev df (Some pat) col_to_match match_col opts overwrite = Inr df'"
    and comp: "regex_compile ev (if expandIUPAC opts then re_expandIUPAC (NT_TO_REGEXP ev) pat else pat) = Inr mt"
    and i: "i < nrows df"
  shows "\<exists>items. match_row ev mt col_to_match match_col opts (match_groupnames opts mt) (row_of df i) = Inr items
           \<and> (\<forall>k v. (k, v) \<in> set items \<longrightarrow> get_cell df' k i = Some v)"
proof -
  from ok obtain mt' d where
    comp': "regex_compile ev (if expandIUPAC opts then re_expandIUPAC (NT_TO_REGEXP ev) pat else pat) = Inr mt'"
    and loop: "rows_loop (match_row ev mt' col_to_match match_col opts (match_groupnames opts mt'))
       (itertuples df) (new_dict (match_newcols match_col opts (match_groupnames opts mt'))) = Inr d"
    and add: "add_columns df (set (match_newcols match_col opts (match_groupnames opts mt'))
                       \<inter> set (column_names df)) d = Inr df'"
    by (rule matchSeqs_Inr)
  from comp comp' have mt: "mt' = mt" by simp
  have g: "add_group_cols opts \<or> match_groupnames opts mt = []"
    by (simp add: match_groupnames_def)
  have keys: "\<And>j items. j < length (itertuples df)
                 \<Longrightarrow> match_row ev mt col_to_match match_col opts (match_groupnames opts mt) (itertuples df ! j) = Inr items
                 \<Longrightarrow> mset (map fst items) = mset (match_newcols match_col opts (match_groupnames opts mt))"
    using match_row_keys [OF _ g] by blast
  have "\<exists>items. match_row ev mt col_to_match match_col opts (match_groupnames opts mt) (itertuples df ! i) = Inr items
           \<and> (\<forall>k v. (k, v) \<in> set items \<longrightarrow> get_cell df' k i = Some v)"
    by (rule loop_cells(2) [OF loop [unfolded mt] add [unfolded mt] _ keys]) (use i in simp_all)
  then show ?thesis using i by (simp add: nth_itertuples)
qed

lemma groups_loop_mem:
  assumes "groups_loop f gs = Inr items" "g \<in> set gs"
  shows "\<exists>its. f g = Inr its \<and> set its \<subseteq> set items"
  using assms
proof (induction gs arbitrary: items)
  case Nil
  then show ?case by simp
next
  case (Cons h gs)
  from Cons.prems(1) obtain its more where h: "f h = Inr its"
    and more: "groups_loop f gs = Inr more" and items: "items = its @ more"
    by (auto simp: ebind_eq_Inr)
  show ?case
  proof (cases "g = h")
    case True
    with h items show ?thesis by auto
  next
    case False
    with Cons.prems(2) have "g \<in> set gs" by simp
    from Cons.IH [OF more this] items show ?thesis by auto
  qed
qed

lemma group_items_mem:
  assumes "group_items opts s m qs g = Inr its"
  shows "(g, m_group s m g) \<in> set its"
    and "add_qvals opts \<Longrightarrow>
           \<exists>xs. qs = CArray xs
              \<and> (g @ ''_qvals'', CArray (py_slice xs (m_start m g) (m_end m g))) \<in> set its"
    and "add_accuracy opts \<Longrightarrow>
           \<exists>xs acc. qs = CArray xs
              \<and> qvalsToAccuracy (QArray (py_slice xs (m_start m g) (m_end m g))) ''numbers'' = Inr acc
              \<and> (g @ ''_accuracy'', CFloat acc) \<in> set its"
  using assms unfolding group_items_def slice_cell_def
  by (auto simp: ebind_eq_Inr split: if_splits cell.splits)

lemma matched_items_mem:
  assumes "matched_items match_col opts gs p s m qs = Inr items"
  shows "(match_col, CBool True) \<in> set items"
    and "add_polarity opts \<Longrightarrow> (match_col @ ''_polarity'', CInt p) \<in> set items"
    and "g \<in> set gs \<Longrightarrow> (g, m_group s m g) \<in> set items"
    and "g \<in> set gs \<Longrightarrow> add_qvals opts \<Longrightarrow>
           \<exists>xs. qs = CArray xs
              \<and> (g @ ''_qvals'', CArray (py_slice xs (m_start m g) (m_end m g))) \<in> set items"
    and "g \<in> set gs \<Longrightarrow> add_accuracy opts \<Longrightarrow>
           \<exists>xs acc. qs = CArray xs
              \<and> qvalsToAccuracy (QArray (py_slice xs (m_start m g) (m_end m g))) ''numbers'' = Inr acc
              \<and> (g @ ''_accuracy'', CFloat acc) \<in> set items"
proof -
  from assms obtain gitems where gl: "groups_loop (group_items opts s m qs) gs = Inr gitems"
    and items: "items = [(match_col, CBool True)]
               @ (if add_polarity opts then [(match_col @ ''_polarity'', CInt p)] else [])
               @ gitems"
    by (auto simp: matched_items_def ebind_eq_Inr)
  show "(match_col, CBool True) \<in> set items" using items by simp
  show "add_polarity opts \<Longrightarrow> (match_col @ ''_polarity'', CInt p) \<in> set items"
    using items by simp
  have sub: "g \<in> set gs \<Longrightarrow> \<exists>its. group_items opts s m qs g = Inr its \<and> set its \<subseteq> set items"
    using groups_loop_mem [OF gl] items by fastforce
  show "g \<in> set gs \<Longrightarrow> (g, m_group s m g) \<in> set items"
    using sub group_items_mem(1) by blast
  show "g \<in> set gs \<Longrightarrow> add_qvals opts \<Longrightarrow>
           \<exists>xs. qs = CArray xs
              \<and> (g @ ''_qvals'', CArray (py_slice xs (m_start m g) (m_end m g))) \<in> set items"
    using sub group_items_mem(2) by blast
  show "g \<in> set gs \<Longrightarrow> add_accuracy opts \<Longrightarrow>
           \<exists>xs acc. qs = CArray xs
              \<and> qvalsToAccuracy (QArray (py_slice xs (m_start m g) (m_end m g))) ''numbers'' = Inr acc
              \<and> (g @ ''_accuracy'', CFloat acc) \<in> set items"
    using sub group_items_mem(3) by blast
qed

lemma unmatched_items_mem:
  shows "(match_col, CBool False) \<in> set (unmatched_items match_col opts gs)"
    and "add_polarity opts \<Longrightarrow> (match_col @ ''_polarity'', CInt 0) \<in> set (unmatched_items match_col opts gs)"
    and "g \<in> set gs \<Longrightarrow> (g, CStr []) \<in> set (unmatched_items match_col opts gs)"
    and "g \<in> set gs \<Longrightarrow> add_qvals opts \<Longrightarrow>
           (g @ ''_qvals'', CArray []) \<in> set (unmatched_items match_col opts gs)"
    and "g \<in> set gs \<Longrightarrow> add_accuracy opts \<Longrightarrow>
           (g @ ''_accuracy'', CInt (- 1)) \<in> set (unmatched_items match_col opts gs)"
  by (auto simp: unmatched_items_def)

lemma row_of_get_cell: "get_cell df c i = Some v \<Longrightarrow> row_of df i c = Inr v"
  by (simp add: row_of_def)

lemma row_of_Inr: "row_of df i c = Inr v \<Longrightarrow> get_cell df c i = Some v"
  by (simp add: row_of_def split: option.splits)

text \<open>
  Claim C1. Take a call of \<^verbatim>\<open>matchSeqs\<close> that returns a table, and a row whose sequence
  \<open>s\<close> the matcher does not match. The matcher is run again on the reverse complement \<open>rc\<close> of \<open>s\<close>,
  and if that search matches with \<open>m\<close>, the row is matched with polarity \<open>-1\<close>,
  every group value is \<^verbatim>\<open>m.group(g)\<close> on the reverse complement, every quality slice is
  the slice of the reversed quality array between \<^verbatim>\<open>m.start(g)\<close> and \<^verbatim>\<open>m.end(g)\<close>, and
  every accuracy is \<^verbatim>\<open>qvalsToAccuracy\<close> of that slice.
\<close>

theorem matchSeqs_reverse_complement:
  assumes ok: "matchSeqs ev df (Some pat) col_to_match match_col opts overwrite = Inr df'"
    and comp: "regex_compile ev
                 (if expandIUPAC opts then re_expandIUPAC (NT_TO_REGEXP ev) pat else pat) = Inr mt"
    and i: "i < nrows df"
    and s: "get_cell df col_to_match i = Some (CStr s)"
    and nomatch: "search mt s = None"
    and rc: "reverseComplement ev s = Inr rc"
    and m: "search mt rc = Some m"
  shows "get_cell df' match_col i = Some (CBool True)
       \<and> (add_polarity opts \<longrightarrow>
            get_cell df' (match_col @ ''_polarity'') i = Some (CInt (- 1)))
       \<and> (add_group_cols opts \<longrightarrow> (\<forall>g \<in> set (groupindex mt).
            get_cell df' g i = Some (m_group rc m g)
          \<and> (add_qvals opts \<or> add_accuracy opts \<longrightarrow>
              (\<exists>qs. get_cell df (col_to_match @ ''_qvals'') i = Some (CArray qs)
                \<and> (add_qvals opts \<longrightarrow>
                     get_cell df' (g @ ''_qvals'') i
                       = Some (CArray (py_slice (rev qs) (m_start m g) (m_end m g))))
                \<and> (add_accuracy opts \<longrightarrow>
                     (\<exists>acc. qvalsToAccuracy
                               (QArray (py_slice (rev qs) (m_start m g) (m_end m g)))
                               ''numbers'' = Inr acc
                          \<and> get_cell df' (g @ ''_accuracy'') i = Some (CFloat acc)))))))"
proof -
  let ?gs = "match_groupnames opts mt"
  from matchSeqs_row [OF ok comp i] obtain items where
    row: "match_row ev mt col_to_match match_col opts ?gs (row_of df i) = Inr items"
    and cells: "\<And>k v. (k, v) \<in> set items \<Longrightarrow> get_cell df' k i = Some v"
    by blast
  have sc: "row_of df i col_to_match = Inr (CStr s)" using s by (rule row_of_get_cell)
  from row show ?thesis
  proof (cases rule: match_row_cases)
    case (forward s' qs m')
    with sc nomatch show ?thesis by simp
  next
    case (unmatched s' qs rc' qs')
    with sc rc m show ?thesis by simp
  next
    case (reverse s' qs rc' qs' m')
    from reverse(1) sc have s': "s' = s" by simp
    from reverse(4) rc s' have rc': "rc' = rc" by simp
    from reverse(6) m rc' have m': "m' = m" by simp
    note mi = matched_items_mem [OF reverse(7) [unfolded rc' m']]
    have c1: "get_cell df' match_col i = Some (CBool True)" using cells mi(1) by blast
    have c2: "add_polarity opts \<longrightarrow>
                 get_cell df' (match_col @ ''_polarity'') i = Some (CInt (- 1))"
      using cells mi(2) by blast
    have c3: "add_group_cols opts \<longrightarrow> (\<forall>g \<in> set (groupindex mt).
                 get_cell df' g i = Some (m_group rc m g)
               \<and> (add_qvals opts \<or> add_accuracy opts \<longrightarrow>
                   (\<exists>qs. get_cell df (col_to_match @ ''_qvals'') i = Some (CArray qs)
                     \<and> (add_qvals opts \<longrightarrow>
                          get_cell df' (g @ ''_qvals'') i
                            = Some (CArray (py_slice (rev qs) (m_start m g) (m_end m g))))
                     \<and> (add_accuracy opts \<longrightarrow>
                          (\<exists>acc. qvalsToAccuracy
                                    (QArray (py_slice (rev qs) (m_start m g) (m_end m g)))
                                    ''numbers'' = Inr acc
                               \<and> get_cell df' (g @ ''_accuracy'') i = Some (CFloat acc))))))"
    proof (intro impI ballI conjI)
      fix g assume agc: "add_group_cols opts" and g: "g \<in> set (groupindex mt)"
      then have gin: "g \<in> set ?gs" by (simp add: match_groupnames_def)
      show "get_cell df' g i = Some (m_group rc m g)" using cells mi(3) [OF gin] by blast
      assume q: "add_qvals opts \<or> add_accuracy opts"
      with agc have uq: "use_qvals opts" by (auto simp: use_qvals_def)
      from reverse(2) uq have qcell: "get_cell df (col_to_match @ ''_qvals'') i = Some qs"
        by (simp add: row_of_Inr)
      from reverse(5) uq obtain xs where xs: "qs = CArray xs" and qs': "qs' = CArray (rev xs)"
        by (auto simp: np_flip_def split: cell.splits)
      show "\<exists>qs. get_cell df (col_to_match @ ''_qvals'') i = Some (CArray qs)
                     \<and> (add_qvals opts \<longrightarrow>
                          get_cell df' (g @ ''_qvals'') i
                            = Some (CArray (py_slice (rev qs) (m_start m g) (m_end m g))))
                     \<and> (add_accuracy opts \<longrightarrow>
                          (\<exists>acc. qvalsToAccuracy
                                    (QArray (py_slice (rev qs) (m_start m g) (m_end m g)))
                                    ''numbers'' = Inr acc
                               \<and> get_cell df' (g @ ''_accuracy'') i = Some (CFloat acc)))"
      proof (intro exI [of _ xs] conjI impI)
        show "get_cell df (col_to_match @ ''_qvals'') i = Some (CArray xs)"
          using qcell xs by simp
        show "get_cell df' (g @ ''_qvals'') i
                = Some (CArray (py_slice (rev xs) (m_start m g) (m_end m g)))"
          if "add_qvals opts"
          using mi(4) [OF gin that] qs' cells by auto
        show "\<exists>acc. qvalsToAccuracy (QArray (py_slice (rev xs) (m_start m g) (m_end m g)))
                       ''numbers'' = Inr acc
                  \<and> get_cell df' (g @ ''_accuracy'') i = Some (CFloat acc)"
          if "add_accuracy opts"
          using mi(5) [OF gin that] qs' cells by auto
      qed
    qed
    from c1 c2 c3 show ?thesis by (intro conjI)
  qed
qed

lemma set_py_slice: "set (py_slice xs a b) \<subseteq> set xs"
  unfolding py_slice_def Let_def
  by (meson set_take_subset set_drop_subset subset_trans)

lemma array_accuracy_nonneg:
  assumes "\<forall>q \<in> set qs. 0 \<le> q"
  shows "0 \<le> array_accuracy qs"
proof -
  have "0 \<le> 1 - 10 powr (real_of_int q / (- 10))" if "q \<in> set qs" for q
  proof -
    from that assms have "real_of_int q / (- 10) \<le> 0" by simp
    then have "(10::real) powr (real_of_int q / (- 10)) \<le> 10 powr 0"
      by (intro powr_mono) simp_all
    then show ?thesis by simp
  qed
  then have "0 \<le> sum_list (map (\<lambda>q. 1 - 10 powr (real_of_int q / (- 10))) qs)"
    by (intro sum_list_nonneg) auto
  then show ?thesis unfolding array_accuracy_def by (intro divide_nonneg_nonneg) simp_all
qed

lemma qvalsToAccuracy_array:
  "qvalsToAccuracy (QArray qs) ''numbers''
     = Inr (if qs = [] then NaN else Fin (array_accuracy qs))"
  by (simp add: qvalsToAccuracy_def)

lemma accuracy_not_minus_one:
  assumes "qvalsToAccuracy (QArray qs) ''numbers'' = Inr acc" "\<forall>q \<in> set qs. 0 \<le> q"
  shows "\<not> is_minus_one (CFloat acc)"
proof (cases "qs = []")
  case True
  with assms(1) show ?thesis by (simp add: qvalsToAccuracy_array)
next
  case False
  with assms(1) have "acc = Fin (array_accuracy qs)" by (simp add: qvalsToAccuracy_array)
  moreover have "0 \<le> array_accuracy qs" using assms(2) by (rule array_accuracy_nonneg)
  ultimately show ?thesis by simp
qed

lemma matched_items_accuracy:
  assumes mi: "matched_items match_col opts gs p s m qs = Inr items"
    and g: "g \<in> set gs" and acc: "add_accuracy opts"
    and nonneg: "\<forall>xs. qs = CArray xs \<longrightarrow> (\<forall>q \<in> set xs. 0 \<le> q)"
  shows "\<exists>c. (g @ ''_accuracy'', c) \<in> set items \<and> \<not> is_minus_one c"
proof -
  from matched_items_mem(5) [OF mi g acc] obtain xs a where
    xs: "qs = CArray xs"
    and a: "qvalsToAccuracy (QArray (py_slice xs (m_start m g) (m_end m g))) ''numbers'' = Inr a"
    and mem: "(g @ ''_accuracy'', CFloat a) \<in> set items"
    by blast
  have "\<forall>q \<in> set (py_slice xs (m_start m g) (m_end m g)). 0 \<le> q"
    using nonneg xs set_py_slice [of xs] by blast
  from accuracy_not_minus_one [OF a this] mem show ?thesis by blast
qed

text \<open>
  Claim C3, amended. In every row of a table returned by \<^verbatim>\<open>matchSeqs\<close>: the match column is
  a boolean; the polarity is 0 exactly when the match column is false; a row that is not
  matched holds the sentinel in every group column that is asked for (the empty string,
  the empty quality slice, the accuracy \<open>-1\<close>). The match column is false exactly when the
  search finds nothing in the sequence of the row and nothing in its reverse complement, so
  a row with no match in either orientation is not matched, has polarity 0 and holds these
  sentinels. Conversely, when group columns with accuracies are asked for, the pattern has
  a named group and the quality values of the row are not negative, a row that holds all
  these sentinels is not matched.
\<close>

theorem matchSeqs_unmatched_sentinels:
  assumes ok: "matchSeqs ev df (Some pat) col_to_match match_col opts overwrite = Inr df'"
    and comp: "regex_compile ev
                 (if expandIUPAC opts then re_expandIUPAC (NT_TO_REGEXP ev) pat else pat) = Inr mt"
    and i: "i < nrows df"
  shows "(get_cell df' match_col i = Some (CBool False)
            \<or> get_cell df' match_col i = Some (CBool True))
       \<and> (add_polarity opts \<longrightarrow>
            (get_cell df' (match_col @ ''_polarity'') i = Some (CInt 0)
               \<longleftrightarrow> get_cell df' match_col i = Some (CBool False)))
       \<and> (get_cell df' match_col i = Some (CBool False)
            \<longrightarrow> group_sentinels df' opts (match_groupnames opts mt) i)
       \<and> (\<exists>s. get_cell df col_to_match i = Some (CStr s)
            \<and> (get_cell df' match_col i = Some (CBool False)
                 \<longleftrightarrow> search mt s = None
                      \<and> (\<exists>rc. reverseComplement ev s = Inr rc \<and> search mt rc = None)))
       \<and> (\<forall>s rc. get_cell df col_to_match i = Some (CStr s) \<and> search mt s = None
                  \<and> reverseComplement ev s = Inr rc \<and> search mt rc = None
            \<longrightarrow> get_cell df' match_col i = Some (CBool False)
                \<and> (add_polarity opts \<longrightarrow>
                      get_cell df' (match_col @ ''_polarity'') i = Some (CInt 0))
                \<and> group_sentinels df' opts (match_groupnames opts mt) i)
       \<and> (add_group_cols opts \<and> add_accuracy opts \<and> groupindex mt \<noteq> []
            \<and> (\<forall>qs. get_cell df (col_to_match @ ''_qvals'') i = Some (CArray qs)
                      \<longrightarrow> (\<forall>q \<in> set qs. 0 \<le> q))
            \<longrightarrow> (group_sentinels df' opts (match_groupnames opts mt) i
                   \<longrightarrow> get_cell df' match_col i = Some (CBool False)))"
proof -
  let ?gs = "match_groupnames opts mt"
  let ?nonneg = "\<forall>qs. get_cell df (col_to_match @ ''_qvals'') i = Some (CArray qs)
                      \<longrightarrow> (\<forall>q \<in> set qs. 0 \<le> q)"
  from matchSeqs_row [OF ok comp i] obtain items where
    row: "match_row ev mt col_to_match match_col opts ?gs (row_of df i) = Inr items"
    and cells: "\<And>k v. (k, v) \<in> set items \<Longrightarrow> get_cell df' k i = Some v"
    by blast
  have matched_case:
    "get_cell df' match_col i = Some (CBool True)
     \<and> (add_polarity opts \<longrightarrow> get_cell df' (match_col @ ''_polarity'') i = Some (CInt p))
     \<and> (add_accuracy opts \<and> ?gs \<noteq> [] \<and> (\<forall>xs. qs = CArray xs \<longrightarrow> (\<forall>q \<in> set xs. 0 \<le> q))
          \<longrightarrow> \<not> group_sentinels df' opts ?gs i)"
    if mi: "matched_items match_col opts ?gs p s m qs = Inr items" for p s m qs
  proof (intro conjI impI)
    show "get_cell df' match_col i = Some (CBool True)"
      using cells matched_items_mem(1) [OF mi] by blast
    show "get_cell df' (match_col @ ''_polarity'') i = Some (CInt p)" if "add_polarity opts"
      using cells matched_items_mem(2) [OF mi that] by blast
    assume a: "add_accuracy opts \<and> ?gs \<noteq> [] \<and> (\<forall>xs. qs = CArray xs \<longrightarrow> (\<forall>q \<in> set xs. 0 \<le> q))"
    then obtain g where g: "g \<in> set ?gs" by (cases ?gs) auto
    from matched_items_accuracy [OF mi g] a obtain c where
      "(g @ ''_accuracy'', c) \<in> set items" "\<not> is_minus_one c" by blast
    then have "get_cell df' (g @ ''_accuracy'') i = Some c" "\<not> is_minus_one c"
      using cells by blast+
    then show "\<not> group_sentinels df' opts ?gs i"
      using g a unfolding group_sentinels_def list_all_iff by force
  qed
  from row have A: "(get_cell df' match_col i = Some (CBool False)
            \<or> get_cell df' match_col i = Some (CBool True))
       \<and> (add_polarity opts \<longrightarrow>
            (get_cell df' (match_col @ ''_polarity'') i = Some (CInt 0)
               \<longleftrightarrow> get_cell df' match_col i = Some (CBool False)))
       \<and> (get_cell df' match_col i = Some (CBool False)
            \<longrightarrow> group_sentinels df' opts (match_groupnames opts mt) i)
       \<and> (add_group_cols opts \<and> add_accuracy opts \<and> groupindex mt \<noteq> []
            \<and> (\<forall>qs. get_cell df (col_to_match @ ''_qvals'') i = Some (CArray qs)
                      \<longrightarrow> (\<forall>q \<in> set qs. 0 \<le> q))
            \<longrightarrow> (group_sentinels df' opts (match_groupnames opts mt) i
                   \<longrightarrow> get_cell df' match_col i = Some (CBool False)))"
    (is ?A)
  proof (cases rule: match_row_cases)
    case (forward s qs m)
    note mc = matched_case [OF forward(4)]
    have nn: "?nonneg \<Longrightarrow> use_qvals opts \<Longrightarrow> \<forall>xs. qs = CArray xs \<longrightarrow> (\<forall>q \<in> set xs. 0 \<le> q)"
      using forward(2) by (auto simp: row_of_Inr)
    show ?A
      using mc nn by (auto simp: use_qvals_def match_groupnames_def)
  next
    case (reverse s qs rc qs' m)
    note mc = matched_case [OF reverse(7)]
    have nn: "?nonneg \<Longrightarrow> use_qvals opts \<Longrightarrow> \<forall>xs. qs' = CArray xs \<longrightarrow> (\<forall>q \<in> set xs. 0 \<le> q)"
      using reverse(2,5) by (auto simp: row_of_Inr np_flip_def split: cell.splits)
    show ?A
      using mc nn by (auto simp: use_qvals_def match_groupnames_def)
  next
    case (unmatched s qs rc qs')
    have c1: "get_cell df' match_col i = Some (CBool False)"
      using cells unmatched_items_mem(1) unmatched(7) by blast
    have c2: "add_polarity opts \<Longrightarrow> get_cell df' (match_col @ ''_polarity'') i = Some (CInt 0)"
      using cells unmatched_items_mem(2) unmatched(7) by blast
    have c3: "group_sentinels df' opts ?gs i"
      unfolding group_sentinels_def list_all_iff
    proof (intro ballI conjI impI)
      fix g assume g: "g \<in> set ?gs"
      show "get_cell df' g i = Some (CStr [])"
        using cells unmatched_items_mem(3) [OF g] unmatched(7) by blast
      show "get_cell df' (g @ ''_qvals'') i = Some (CArray [])" if "add_qvals opts"
        using cells unmatched_items_mem(4) [OF g that] unmatched(7) by blast
      have "get_cell df' (g @ ''_accuracy'') i = Some (CInt (- 1))" if "add_accuracy opts"
        using cells unmatched_items_mem(5) [OF g that] unmatched(7) by blast
      then show "case get_cell df' (g @ ''_accuracy'') i of None \<Rightarrow> False | Some c \<Rightarrow> is_minus_one c"
        if "add_accuracy opts"
        using that by simp
    qed
    from c1 c2 c3 show ?A by simp
  qed
  from row have B: "\<exists>s. get_cell df col_to_match i = Some (CStr s)
            \<and> (get_cell df' match_col i = Some (CBool False)
                 \<longleftrightarrow> search mt s = None
                      \<and> (\<exists>rc. reverseComplement ev s = Inr rc \<and> search mt rc = None))"
  proof (cases rule: match_row_cases)
    case (forward s qs m)
    have "get_cell df col_to_match i = Some (CStr s)"
      using forward(1) by (rule row_of_Inr)
    moreover have "get_cell df' match_col i = Some (CBool True)"
      using cells matched_items_mem(1) [OF forward(4)] by blast
    ultimately show ?thesis using forward(3) by auto
  next
    case (reverse s qs rc qs' m)
    have "get_cell df col_to_match i = Some (CStr s)"
      using reverse(1) by (rule row_of_Inr)
    moreover have "get_cell df' match_col i = Some (CBool True)"
      using cells matched_items_mem(1) [OF reverse(7)] by blast
    ultimately show ?thesis using reverse(4,6) by auto
  next
    case (unmatched s qs rc qs')
    have "get_cell df col_to_match i = Some (CStr s)"
      using unmatched(1) by (rule row_of_Inr)
    moreover have "get_cell df' match_col i = Some (CBool False)"
      using cells unmatched_items_mem(1) unmatched(7) by blast
    ultimately show ?thesis using unmatched(3,4,6) by auto
  qed
  have C: "\<forall>s rc. get_cell df col_to_match i = Some (CStr s) \<and> search mt s = None
                  \<and> reverseComplement ev s = Inr rc \<and> search mt rc = None
            \<longrightarrow> get_cell df' match_col i = Some (CBool False)
                \<and> (add_polarity opts \<longrightarrow>
                      get_cell df' (match_col @ ''_polarity'') i = Some (CInt 0))
                \<and> group_sentinels df' opts (match_groupnames opts mt) i"
  proof (intro allI impI)
    fix s rc
    assume h: "get_cell df col_to_match i = Some (CStr s) \<and> search mt s = None
                  \<and> reverseComplement ev s = Inr rc \<and> search mt rc = None"
    from B obtain s' where
      s': "get_cell df col_to_match i = Some (CStr s')"
      and iff: "get_cell df' match_col i = Some (CBool False)
                 \<longleftrightarrow> search mt s' = None
                      \<and> (\<exists>rc. reverseComplement ev s' = Inr rc \<and> search mt rc = None)"
      by (elim exE conjE)
    from h s' have "s' = s" by simp
    with iff h have f: "get_cell df' match_col i = Some (CBool False)" by blast
    note A1 = A [THEN conjunct2, THEN conjunct1]
    note A2 = A [THEN conjunct2, THEN conjunct2, THEN conjunct1]
    from A1 f have p: "add_polarity opts \<longrightarrow>
                      get_cell df' (match_col @ ''_polarity'') i = Some (CInt 0)"
      by simp
    from A2 f have g: "group_sentinels df' opts (match_groupnames opts mt) i"
      by (rule mp)
    from f p g show "get_cell df' match_col i = Some (CBool False)
                \<and> (add_polarity opts \<longrightarrow>
                      get_cell df' (match_col @ ''_polarity'') i = Some (CInt 0))
                \<and> group_sentinels df' opts (match_groupnames opts mt) i"
      by (intro conjI)
  qed
  note A1 = A [THEN conjunct1]
  note A2 = A [THEN conjunct2, THEN conjunct1]
  note A3 = A [THEN conjunct2, THEN conjunct2, THEN conjunct1]
  note A4 = A [THEN conjunct2, THEN conjunct2, THEN conjunct2]
  show ?thesis
    by (intro conjI) (rule A1 A2 A3 B C A4)+
qed

text \<open>
  Claim C10. With \<^verbatim>\<open>match_str = None\<close>, \<^verbatim>\<open>matchSeqs\<close> returns the data frame it was given,
  whatever the other arguments are: nothing is checked and nothing is raised.
\<close>

theorem matchSeqs_None_returns_input:
  "matchSeqs ev df None col_to_match match_col opts overwrite = Inr df"
  by (simp add: matchSeqs_def)

section \<open>Properties of \<^verbatim>\<open>alignSeqs\<close>\<close>

lemma unaligned_items_keys:
  "map fst (unaligned_items aligned_col opts) = align_newcols aligned_col opts"
  by (simp add: unaligned_items_def align_newcols_def comp_def)

lemma mut_items_keys:
  "mut_items aligned_col muts types = Inr items
     \<Longrightarrow> map fst items = map (\<lambda>mut_type. aligned_col @ ''_'' @ mut_type) types"
  by (induction types arbitrary: items) (auto simp: ebind_eq_Inr split: option.splits)

lemma aligned_items_Inr:
  assumes "aligned_items mapper aligned_col opts qv a0 = Inr items"
  obtains vitems a mitems ditems where
    "strand a0 = 1"
    "(case targetvariants opts of
        None \<Rightarrow> Inr ([], a0)
      | Some tv \<Rightarrow>
          (case qv of
             None \<Rightarrow> Inl NameError
           | Some q \<Rightarrow>
               ebind (tv_call tv a0 q)
                 (\<lambda>(variant, a). Inr ([(aligned_col @ ''_target_variant'', variant)], a))))
     = Inr (vitems, a)"
    "(case mutationcaller opts of
        None \<Rightarrow> Inr []
      | Some mc \<Rightarrow> ebind (mc_call mc a) (\<lambda>muts. mut_items aligned_col muts mut_types))
     = Inr mitems"
    "(if add_n_additional_difftarget opts
      then ebind (n_additional_difftarget mapper a)
             (\<lambda>n. Inr [(aligned_col @ ''_n_additional_difftarget'', CInt n)])
      else Inr []) = Inr ditems"
    "items = vitems @ mitems
                  @ [(aligned_col, CBool True)]
                  @ (if add_alignment opts then [(aligned_col @ ''_alignment'', CAlign a)] else [])
                  @ (if add_target opts then [(aligned_col @ ''_target'', CStr (target a))] else [])
                  @ (if add_cigar opts then [(aligned_col @ ''_cigar'', CStr (cigar_str a))] else [])
                  @ (if add_n_trimmed opts then
                       [(aligned_col @ ''_n_trimmed_'' @ ''query_start'', CInt (q_st a)),
                        (aligned_col @ ''_n_trimmed_'' @ ''query_end'', CInt (q_len a - q_en a)),
                        (aligned_col @ ''_n_trimmed_'' @ ''target_start'', CInt (r_st a)),
                        (aligned_col @ ''_n_trimmed_'' @ ''target_end'', CInt (r_len a - r_en a))]
                     else [])
                  @ (if add_n_additional opts
                     then [(aligned_col @ ''_n_additional'', CInt (int (length (additional a))))]
                     else [])
                  @ ditems"
proof -
  from assms have st: "strand a0 = 1"
    unfolding aligned_items_def by (auto split: if_splits)
  from assms st obtain va where
    v: "(case targetvariants opts of
        None \<Rightarrow> Inr ([], a0)
      | Some tv \<Rightarrow>
          (case qv of
             None \<Rightarrow> Inl NameError
           | Some q \<Rightarrow>
               ebind (tv_call tv a0 q)
                 (\<lambda>(variant, a). Inr ([(aligned_col @ ''_target_variant'', variant)], a))))
     = Inr va"
    unfolding aligned_items_def by (auto simp: ebind_eq_Inr)
  obtain vitems a where va: "va = (vitems, a)" by (cases va)
  from assms st v va obtain mitems where
    mi: "(case mutationcaller opts of
        None \<Rightarrow> Inr []
      | Some mc \<Rightarrow> ebind (mc_call mc a) (\<lambda>muts. mut_items aligned_col muts mut_types))
     = Inr mitems"
    unfolding aligned_items_def by (auto simp: ebind_eq_Inr)
  from assms st v va mi obtain ditems where
    di: "(if add_n_additional_difftarget opts
      then ebind (n_additional_difftarget mapper a)
             (\<lambda>n. Inr [(aligned_col @ ''_n_additional_difftarget'', CInt n)])
      else Inr []) = Inr ditems"
    unfolding aligned_items_def by (auto simp: ebind_eq_Inr)
  from assms st v va mi di have
    "items = vitems @ mitems
                  @ [(aligned_col, CBool True)]
                  @ (if add_alignment opts then [(aligned_col @ ''_alignment'', CAlign a)] else [])
                  @ (if add_target opts then [(aligned_col @ ''_target'', CStr (target a))] else [])
                  @ (if add_cigar opts then [(aligned_col @ ''_cigar'', CStr (cigar_str a))] else [])
                  @ (if add_n_trimmed opts then
                       [(aligned_col @ ''_n_trimmed_'' @ ''query_start'', CInt (q_st a)),
                        (aligned_col @ ''_n_trimmed_'' @ ''query_end'', CInt (q_len a - q_en a)),
                        (aligned_col @ ''_n_trimmed_'' @ ''target_start'', CInt (r_st a)),
                        (aligned_col @ ''_n_trimmed_'' @ ''target_end'', CInt (r_len a - r_en a))]
                     else [])
                  @ (if add_n_additional opts
                     then [(aligned_col @ ''_n_additional'', CInt (int (length (additional a))))]
                     else [])
                  @ ditems"
    unfolding aligned_items_def by simp
  with st v [unfolded va] mi di show thesis by (rule that)
qed

lemma aligned_items_keys:
  assumes "aligned_items mapper aligned_col opts qv a0 = Inr items"
  shows "mset (map fst items) = mset (align_newcols aligned_col opts)"
  using assms
proof (cases rule: aligned_items_Inr)
  case (1 vitems a mitems ditems)
  have v: "map fst vitems = (if targetvariants opts \<noteq> None then [aligned_col @ ''_target_variant''] else [])"
    using 1(2) by (auto simp: ebind_eq_Inr split: option.splits)
  have m: "map fst mitems = (if mutationcaller opts \<noteq> None
        then map (\<lambda>mut_type. aligned_col @ ''_'' @ mut_type) mut_types else [])"
    using 1(3) by (auto simp: ebind_eq_Inr mut_items_keys split: option.splits)
  have d: "map fst ditems = (if add_n_additional_difftarget opts
        then [aligned_col @ ''_n_additional_difftarget''] else [])"
    using 1(4) by (auto simp: ebind_eq_Inr split: if_splits)
  show ?thesis
    unfolding 1(5) align_newcols_def
    by (simp add: v m d trim_suffixes_def)
qed

lemma align_row_keys:
  assumes "align_row mapper map_dict aligned_col opts r = Inr items"
  shows "mset (map fst items) = mset (align_newcols aligned_col opts)"
proof (cases "map_dict (fst r)")
  case None
  with assms have "items = unaligned_items aligned_col opts" by (simp add: align_row_def)
  then show ?thesis by (simp only: unaligned_items_keys)
next
  case (Some a)
  with assms have "aligned_items mapper aligned_col opts (snd r) a = Inr items"
    by (simp add: align_row_def)
  then show ?thesis by (rule aligned_items_keys)
qed

lemma align_newcols_nonempty: "align_newcols aligned_col opts \<noteq> []"
  by (simp add: align_newcols_def)

lemma alignSeqs_Inr:
  assumes "alignSeqs df mapper query_col aligned_col opts overwrite = Inr df'"
  obtains names map_dict d where
    "map_of (columns df) ''name'' = Some names"
    "distinct names"
    "distinct (align_newcols aligned_col opts)"
    "overwrite \<or> set (align_newcols aligned_col opts) \<inter> set (column_names df) = {}"
    "mapper_map mapper (align_queries df query_col names) (paf_file opts) = Inr map_dict"
    "rows_loop (align_row mapper map_dict aligned_col opts) (align_rows df query_col opts names)
       (new_dict (align_newcols aligned_col opts)) = Inr d"
    "add_columns df (set (align_newcols aligned_col opts) \<inter> set (column_names df)) d = Inr df'"
  using assms unfolding alignSeqs_def
  by (auto simp: ebind_eq_Inr Let_def split: if_splits option.splits)

lemma alignSeqs_row:
  assumes ok: "alignSeqs df mapper query_col aligned_col opts overwrite = Inr df'"
    and i: "i < nrows df"
  shows "\<exists>names map_dict items.
           map_of (columns df) ''name'' = Some names
         \<and> length names = nrows df
         \<and> mapper_map mapper (align_queries df query_col names) (paf_file opts) = Inr map_dict
         \<and> align_row mapper map_dict aligned_col opts
              (names ! i, if qvals_assigned opts then get_cell df (query_col @ ''_qvals'') i else None)
            = Inr items
         \<and> (\<forall>k v. (k, v) \<in> set items \<longrightarrow> get_cell df' k i = Some v)"
proof -
  let ?newcols = "align_newcols aligned_col opts"
  from ok obtain names map_dict d where
    names: "map_of (columns df) ''name'' = Some names"
    and dist: "distinct ?newcols"
    and md: "mapper_map mapper (align_queries df query_col names) (paf_file opts) = Inr map_dict"
    and loop: "rows_loop (align_row mapper map_dict aligned_col opts)
                 (align_rows df query_col opts names) (new_dict ?newcols) = Inr d"
    and add: "add_columns df (set ?newcols \<inter> set (column_names df)) d = Inr df'"
    by (rule alignSeqs_Inr)
  let ?rows = "align_rows df query_col opts names"
  have keys: "\<And>j items. j < length ?rows
                 \<Longrightarrow> align_row mapper map_dict aligned_col opts (?rows ! j) = Inr items
                 \<Longrightarrow> mset (map fst items) = mset ?newcols"
    using align_row_keys by blast
  have lr: "length ?rows = length names" by (simp add: align_rows_def)
  have len: "length names = nrows df"
  proof (cases "names = []")
    case True
    from loop True have "d = new_dict ?newcols" by (simp add: align_rows_def)
    with add have "list_all (\<lambda>(k, vs). length vs = nrows df) (new_dict ?newcols)"
      by (auto simp: add_columns_def split: if_splits)
    moreover have "(aligned_col, []) \<in> set (new_dict ?newcols)"
      by (simp add: new_dict_def set_dict_keys align_newcols_def image_iff)
    ultimately have "nrows df = 0" by (auto simp: list_all_iff)
    with True show ?thesis by simp
  next
    case False
    then have "0 < length ?rows" using lr by simp
    have "length ?rows = nrows df"
      by (rule loop_cells_distinct(2) [OF loop add _ \<open>0 < length ?rows\<close> dist align_newcols_nonempty])
         (rule keys)
    with lr show ?thesis by simp
  qed
  with i have i': "i < length ?rows" using lr by simp
  have "\<exists>items. align_row mapper map_dict aligned_col opts (?rows ! i) = Inr items
           \<and> (\<forall>k v. (k, v) \<in> set items \<longrightarrow> get_cell df' k i = Some v)"
    by (rule loop_cells_distinct(1) [OF loop add _ i' dist align_newcols_nonempty]) (rule keys)
  then obtain items where "align_row mapper map_dict aligned_col opts (?rows ! i) = Inr items"
    and "\<forall>k v. (k, v) \<in> set items \<longrightarrow> get_cell df' k i = Some v"
    by blast
  moreover have "?rows ! i = (names ! i,
      if qvals_assigned opts then get_cell df (query_col @ ''_qvals'') i else None)"
    using i' lr by (simp add: align_rows_def)
  ultimately show ?thesis using names len md by auto
qed

lemma trim_names:
  "aligned_col @ ''_n_trimmed_'' @ ''query_start'' = aligned_col @ ''_n_trimmed_query_start''"
  "aligned_col @ ''_n_trimmed_'' @ ''query_end'' = aligned_col @ ''_n_trimmed_query_end''"
  "aligned_col @ ''_n_trimmed_'' @ ''target_start'' = aligned_col @ ''_n_trimmed_target_start''"
  "aligned_col @ ''_n_trimmed_'' @ ''target_end'' = aligned_col @ ''_n_trimmed_target_end''"
  by simp_all



lemma rows_loop_all_Inr:
  assumes "rows_loop body rows d = Inr d'" "j < length rows"
  shows "\<exists>items. body (rows ! j) = Inr items"
  using rows_loop_Inr [OF assms(1)] assms(2) by blast

text \<open>
  Claim C8. If the mapper returns, for the name of a row, an alignment whose strand is
  not \<open>1\<close>, the call of \<^verbatim>\<open>alignSeqs\<close> raises: no table is returned, so the row is neither
  given sentinels nor handled.
\<close>

theorem alignSeqs_reverse_strand_fatal:
  assumes names: "map_of (columns df) ''name'' = Some names"
    and md: "mapper_map mapper (align_queries df query_col names) (paf_file opts) = Inr map_dict"
    and i: "i < length names"
    and a: "map_dict (names ! i) = Some a"
    and st: "strand a \<noteq> 1"
  shows "\<exists>e. alignSeqs df mapper query_col aligned_col opts overwrite = Inl e"
proof (cases "alignSeqs df mapper query_col aligned_col opts overwrite")
  case (Inl e)
  then show ?thesis by blast
next
  case (Inr df')
  then obtain names' md' d where
    n': "map_of (columns df) ''name'' = Some names'"
    and m': "mapper_map mapper (align_queries df query_col names') (paf_file opts) = Inr md'"
    and loop: "rows_loop (align_row mapper md' aligned_col opts)
                 (align_rows df query_col opts names') (new_dict (align_newcols aligned_col opts))
               = Inr d"
    by (rule alignSeqs_Inr)
  from n' names have neq: "names' = names" by simp
  from m' md neq have meq: "md' = map_dict" by simp
  have len: "i < length (align_rows df query_col opts names)"
    using i by (simp add: align_rows_def)
  from rows_loop_all_Inr [OF loop [unfolded neq meq] len] obtain items where
    "align_row mapper map_dict aligned_col opts (align_rows df query_col opts names ! i) = Inr items"
    by blast
  moreover have "fst (align_rows df query_col opts names ! i) = names ! i"
    using i by (simp add: align_rows_def)
  ultimately have "aligned_items mapper aligned_col opts
                     (snd (align_rows df query_col opts names ! i)) a = Inr items"
    using a by (simp add: align_row_def)
  with st show ?thesis by (simp add: aligned_items_def)
qed

lemma matchSeqs_collision:
  assumes "\<not> overwrite"
    and "regex_compile ev
           (if expandIUPAC opts then re_expandIUPAC (NT_TO_REGEXP ev) pat else pat) = Inr mt"
    and "c \<in> set (match_newcols match_col opts (match_groupnames opts mt))"
    and "c \<in> set (column_names df)"
  shows "\<exists>e. matchSeqs ev df (Some pat) col_to_match match_col opts overwrite = Inl e"
proof (cases "matchSeqs ev df (Some pat) col_to_match match_col opts overwrite")
  case (Inl e)
  then show ?thesis by blast
next
  case (Inr df')
  then obtain mt' where
    "regex_compile ev
       (if expandIUPAC opts then re_expandIUPAC (NT_TO_REGEXP ev) pat else pat) = Inr mt'"
    "overwrite \<or> set (match_newcols match_col opts (match_groupnames opts mt'))
                   \<inter> set (column_names df) = {}"
    by (rule matchSeqs_Inr)
  with assms show ?thesis by auto
qed

lemma matchSeqs_collision_match_col:
  assumes "\<not> overwrite" and "match_col \<in> set (column_names df)"
  shows "\<exists>e. matchSeqs ev df (Some pat) col_to_match match_col opts overwrite = Inl e"
proof (cases "matchSeqs ev df (Some pat) col_to_match match_col opts overwrite")
  case (Inl e)
  then show ?thesis by blast
next
  case (Inr df')
  then obtain mt' where
    "overwrite \<or> set (match_newcols match_col opts (match_groupnames opts mt'))
                   \<inter> set (column_names df) = {}"
    by (rule matchSeqs_Inr)
  moreover have "match_col \<in> set (match_newcols match_col opts (match_groupnames opts mt'))"
    by (simp add: match_newcols_def)
  ultimately show ?thesis using assms by auto
qed

lemma alignSeqs_collision:
  assumes "\<not> overwrite"
    and "c \<in> set (align_newcols aligned_col opts)"
    and "c \<in> set (column_names df)"
  shows "\<exists>e. alignSeqs df mapper query_col aligned_col opts overwrite = Inl e"
proof (cases "alignSeqs df mapper query_col aligned_col opts overwrite")
  case (Inl e)
  then show ?thesis by blast
next
  case (Inr df')
  then have "overwrite \<or> set (align_newcols aligned_col opts) \<inter> set (column_names df) = {}"
    by (rule alignSeqs_Inr)
  with assms show ?thesis by auto
qed

lemma add_columns_names:
  assumes "add_columns df dup d = Inr df'"
  shows "column_names df' = filter (\<lambda>c. c \<notin> dup) (column_names df) @ map fst d"
proof -
  from assms have "df' = df\<lparr>columns := filter (\<lambda>(k, vs). k \<notin> dup) (columns df) @ d\<rparr>"
    by (auto simp: add_columns_def split: if_splits)
  moreover have "map fst (filter (\<lambda>(k, vs). k \<notin> dup) xs) = filter (\<lambda>c. c \<notin> dup) (map fst xs)"
    for xs :: pydict
    by (induction xs) auto
  ultimately show ?thesis by (simp add: column_names_def)
qed

lemma filter_notin_inter:
  "filter (\<lambda>c. c \<notin> A \<inter> set xs) xs = filter (\<lambda>c. c \<notin> A) xs"
  by (rule filter_cong) auto

lemma rows_loop_keys:
  "rows_loop body rows d = Inr d' \<Longrightarrow> map fst d' = map fst d"
  using rows_loop_Inr by blast

lemma matchSeqs_columns:
  assumes ok: "matchSeqs ev df (Some pat) col_to_match match_col opts overwrite = Inr df'"
    and comp: "regex_compile ev
                 (if expandIUPAC opts then re_expandIUPAC (NT_TO_REGEXP ev) pat else pat) = Inr mt"
  shows "column_names df'
           = filter (\<lambda>c. c \<notin> set (match_newcols match_col opts (match_groupnames opts mt)))
               (column_names df)
             @ dict_keys (match_newcols match_col opts (match_groupnames opts mt))"
proof -
  from ok obtain mt' d where
    comp': "regex_compile ev (if expandIUPAC opts then re_expandIUPAC (NT_TO_REGEXP ev) pat else pat) = Inr mt'"
    and loop: "rows_loop (match_row ev mt' col_to_match match_col opts (match_groupnames opts mt'))
       (itertuples df) (new_dict (match_newcols match_col opts (match_groupnames opts mt'))) = Inr d"
    and add: "add_columns df (set (match_newcols match_col opts (match_groupnames opts mt'))
                       \<inter> set (column_names df)) d = Inr df'"
    by (rule matchSeqs_Inr)
  from comp comp' have mt: "mt' = mt" by simp
  from rows_loop_keys [OF loop]
  have k: "map fst d = dict_keys (match_newcols match_col opts (match_groupnames opts mt))"
    by (simp add: keys_new_dict mt)
  show ?thesis
    using add_columns_names [OF add] unfolding mt filter_notin_inter k .
qed

lemma dict_keys_distinct: "distinct xs \<Longrightarrow> dict_keys xs = xs"
proof -
  have "distinct (acc @ xs) \<Longrightarrow>
          foldl (\<lambda>acc x. if x \<in> set acc then acc else acc @ [x]) acc xs = acc @ xs" for acc
    by (induction xs arbitrary: acc) auto
  from this [of "[]"] show "distinct xs \<Longrightarrow> dict_keys xs = xs" by (simp add: dict_keys_def)
qed

lemma alignSeqs_columns:
  assumes ok: "alignSeqs df mapper query_col aligned_col opts overwrite = Inr df'"
  shows "column_names df'
           = filter (\<lambda>c. c \<notin> set (align_newcols aligned_col opts)) (column_names df)
             @ align_newcols aligned_col opts"
proof -
  from ok obtain names map_dict d where
    dist: "distinct (align_newcols aligned_col opts)"
    and loop: "rows_loop (align_row mapper map_dict aligned_col opts) (align_rows df query_col opts names)
       (new_dict (align_newcols aligned_col opts)) = Inr d"
    and add: "add_columns df (set (align_newcols aligned_col opts) \<inter> set (column_names df)) d = Inr df'"
    by (rule alignSeqs_Inr)
  from rows_loop_keys [OF loop] have k: "map fst d = align_newcols aligned_col opts"
    by (simp add: keys_new_dict dict_keys_distinct [OF dist])
  show ?thesis
    using add_columns_names [OF add] unfolding filter_notin_inter k .
qed

text \<open>
  Claim C9, amended. When a pattern is given, \<^verbatim>\<open>matchSeqs\<close> raises if \<^verbatim>\<open>overwrite\<close> is false
  and a column it is to add (the match column, or any other of the new columns of the
  compiled pattern) is a column of the input; \<^verbatim>\<open>alignSeqs\<close> raises under the same
  condition on its new columns. In a table returned by either function every input
  column with the name of a new column is dropped, the new columns follow the remaining
  input columns, and the cells of the new columns are those computed for the rows.
\<close>

theorem column_collision_policy:
  "(\<not> overwrite \<and> match_col \<in> set (column_names df)
      \<longrightarrow> (\<exists>e. matchSeqs ev df (Some pat) col_to_match match_col opts overwrite = Inl e))
   \<and> (\<not> overwrite
        \<and> regex_compile ev
            (if expandIUPAC opts then re_expandIUPAC (NT_TO_REGEXP ev) pat else pat) = Inr mt
        \<and> c \<in> set (match_newcols match_col opts (match_groupnames opts mt))
        \<and> c \<in> set (column_names df)
      \<longrightarrow> (\<exists>e. matchSeqs ev df (Some pat) col_to_match match_col opts overwrite = Inl e))
   \<and> (\<not> overwrite \<and> c' \<in> set (align_newcols aligned_col aopts) \<and> c' \<in> set (column_names adf)
      \<longrightarrow> (\<exists>e. alignSeqs adf mapper query_col aligned_col aopts overwrite = Inl e))
   \<and> (matchSeqs ev df (Some pat) col_to_match match_col opts True = Inr df'
        \<and> regex_compile ev
            (if expandIUPAC opts then re_expandIUPAC (NT_TO_REGEXP ev) pat else pat) = Inr mt
      \<longrightarrow> column_names df'
            = filter (\<lambda>c. c \<notin> set (match_newcols match_col opts (match_groupnames opts mt)))
                (column_names df)
              @ dict_keys (match_newcols match_col opts (match_groupnames opts mt))
          \<and> (\<forall>i < nrows df. \<exists>items.
                match_row ev mt col_to_match match_col opts (match_groupnames opts mt) (row_of df i)
                  = Inr items
                \<and> (\<forall>k v. (k, v) \<in> set items \<longrightarrow> get_cell df' k i = Some v)))
   \<and> (alignSeqs adf mapper query_col aligned_col aopts True = Inr adf'
      \<longrightarrow> column_names adf'
            = filter (\<lambda>c. c \<notin> set (align_newcols aligned_col aopts)) (column_names adf)
              @ align_newcols aligned_col aopts
          \<and> (\<forall>i < nrows adf. \<exists>names map_dict items.
                map_of (columns adf) ''name'' = Some names
                \<and> mapper_map mapper (align_queries adf query_col names) (paf_file aopts)
                    = Inr map_dict
                \<and> align_row mapper map_dict aligned_col aopts
                     (names ! i,
                      if qvals_assigned aopts then get_cell adf (query_col @ ''_qvals'') i else None)
                    = Inr items
                \<and> (\<forall>k v. (k, v) \<in> set items \<longrightarrow> get_cell adf' k i = Some v)))"
proof (intro conjI impI)
  assume "\<not> overwrite \<and> match_col \<in> set (column_names df)"
  then show "\<exists>e. matchSeqs ev df (Some pat) col_to_match match_col opts overwrite = Inl e"
    using matchSeqs_collision_match_col by blast
next
  assume "\<not> overwrite
        \<and> regex_compile ev
            (if expandIUPAC opts then re_expandIUPAC (NT_TO_REGEXP ev) pat else pat) = Inr mt
        \<and> c \<in> set (match_newcols match_col opts (match_groupnames opts mt))
        \<and> c \<in> set (column_names df)"
  then show "\<exists>e. matchSeqs ev df (Some pat) col_to_match match_col opts overwrite = Inl e"
    using matchSeqs_collision by blast
next
  assume "\<not> overwrite \<and> c' \<in> set (align_newcols aligned_col aopts) \<and> c' \<in> set (column_names adf)"
  then show "\<exists>e. alignSeqs adf mapper query_col aligned_col aopts overwrite = Inl e"
    using alignSeqs_collision by blast
next
  assume a: "matchSeqs ev df (Some pat) col_to_match match_col opts True = Inr df'
        \<and> regex_compile ev
            (if expandIUPAC opts then re_expandIUPAC (NT_TO_REGEXP ev) pat else pat) = Inr mt"
  then show "column_names df'
            = filter (\<lambda>c. c \<notin> set (match_newcols match_col opts (match_groupnames opts mt)))
                (column_names df)
              @ dict_keys (match_newcols match_col opts (match_groupnames opts mt))"
    using matchSeqs_columns by blast
  from a show "\<forall>i < nrows df. \<exists>items.
                match_row ev mt col_to_match match_col opts (match_groupnames opts mt) (row_of df i)
                  = Inr items
                \<and> (\<forall>k v. (k, v) \<in> set items \<longrightarrow> get_cell df' k i = Some v)"
    using matchSeqs_row by blast
next
  assume a: "alignSeqs adf mapper query_col aligned_col aopts True = Inr adf'"
  then show "column_names adf'
            = filter (\<lambda>c. c \<notin> set (align_newcols aligned_col aopts)) (column_names adf)
              @ align_newcols aligned_col aopts"
    by (rule alignSeqs_columns)
  from a show "\<forall>i < nrows adf. \<exists>names map_dict items.
                map_of (columns adf) ''name'' = Some names
                \<and> mapper_map mapper (align_queries adf query_col names) (paf_file aopts)
                    = Inr map_dict
                \<and> align_row mapper map_dict aligned_col aopts
                     (names ! i,
                      if qvals_assigned aopts then get_cell adf (query_col @ ''_qvals'') i else None)
                    = Inr items
                \<and> (\<forall>k v. (k, v) \<in> set items \<longrightarrow> get_cell adf' k i = Some v)"
    using alignSeqs_row [OF a] by blast
qed

section \<open>The example of the \<^verbatim>\<open>CCS\<close> docstring, evaluated\<close>

lemma ccs_expand:
  "re_expandIUPAC NT_TO_REGEXP_iupac ccs_match_str
     = ''ACG(?P<barcode>[ACGT]{3})(?P<read>[ACGT]+)CTT''"
  by code_simp

lemma ccs_lex_parse:
  "(case lex ''ACG(?P<barcode>[ACGT]{3})(?P<read>[ACGT]+)CTT'' of
      Inl e \<Rightarrow> None
    | Inr ts \<Rightarrow> Some (parse [] [] [] ts, dict_keys (token_names ts)))
   = Some (Inr ccs_regex, [''barcode'', ''read''])"
  by code_simp

lemma ccs_compile:
  "re_compile ''ACG(?P<barcode>[ACGT]{3})(?P<read>[ACGT]+)CTT'' = Inr ccs_matcher"
  using ccs_lex_parse unfolding re_compile_def ccs_matcher_def
  by (auto split: sum.splits)

lemma ccs_matcher_sel:
  "search ccs_matcher = re_search ccs_regex"
  "groupindex ccs_matcher = [''barcode'', ''read'']"
  by (simp_all add: ccs_matcher_def)

lemma ccs_search:
  "re_search ccs_regex ''ACGTTCACGCTT'' = Some [(''read'', 6, 9), (''barcode'', 3, 6)]"
  "re_search ccs_regex ''TAAGTGCTCTCGTA'' = None"
  "re_search ccs_regex ''TACGAGAGCACTTA'' = Some [(''read'', 7, 10), (''barcode'', 4, 7)]"
  "re_search ccs_regex ''GGGCATGCACTT'' = None"
  "re_search ccs_regex ''AAGTGCATGCCC'' = None"
  by code_simp+

lemma ccs_rc:
  "reverseComplement_dna ''TAAGTGCTCTCGTA'' = Inr ''TACGAGAGCACTTA''"
  "reverseComplement_dna ''GGGCATGCACTT'' = Inr ''AAGTGCATGCCC''"
  by code_simp+

lemma ccs_rows:
  "itertuples ccs_df = [row_of ccs_df 0, row_of ccs_df (Suc 0), row_of ccs_df (Suc (Suc 0))]"
  by (simp add: itertuples_def nrows_def ccs_df_def upt_rec)

lemma ccs_row_cells:
  "row_of ccs_df 0 ''CCS'' = Inr (CStr ''ACGTTCACGCTT'')"
  "row_of ccs_df (Suc 0) ''CCS'' = Inr (CStr ''TAAGTGCTCTCGTA'')"
  "row_of ccs_df (Suc (Suc 0)) ''CCS'' = Inr (CStr ''GGGCATGCACTT'')"
  "row_of ccs_df 0 ''CCS_qvals'' = Inr (CArray [30, 30, 30, 30, 30, 30, 30, 30, 30, 30, 30, 30])"
  "row_of ccs_df (Suc 0) ''CCS_qvals'' = Inr (CArray [30, 30, 30, 30, 30, 30, 30, 24, 30, 20, 30, 30, 30, 30])"
  "row_of ccs_df (Suc (Suc 0)) ''CCS_qvals'' = Inr (CArray [30, 30, 30, 30, 30, 30, 30, 30, 30, 30, 30, 30])"
  by (simp_all add: row_of_def get_cell_def ccs_df_def)

lemma accuracy_30: "qvalsToAccuracy (QArray (x # xs)) ''numbers'' = Inr (Fin (array_accuracy (x # xs)))"
  by (simp add: qvalsToAccuracy_def)

lemma ccs_row0:
  "match_row env0 ccs_matcher
     ''CCS'' ''barcoded'' default_match_opts [''barcode'', ''read''] (row_of ccs_df 0)
   = Inr [(''barcoded'', CBool True), (''barcoded_polarity'', CInt 1),
          (''barcode'', CStr ''TTC''), (''barcode_qvals'', CArray [30, 30, 30]),
          (''barcode_accuracy'', CFloat (Fin (array_accuracy [30, 30, 30]))),
          (''read'', CStr ''ACG''), (''read_qvals'', CArray [30, 30, 30]),
          (''read_accuracy'', CFloat (Fin (array_accuracy [30, 30, 30])))]"
  by (simp add: match_row_def ccs_row_cells ccs_search ccs_matcher_sel use_qvals_def default_match_opts_def
        matched_items_def group_items_def slice_cell_def py_slice_def m_start_def m_end_def
        m_group_def accuracy_30)

lemma ccs_row1:
  "match_row env0 ccs_matcher
     ''CCS'' ''barcoded'' default_match_opts [''barcode'', ''read''] (row_of ccs_df (Suc 0))
   = Inr [(''barcoded'', CBool True), (''barcoded_polarity'', CInt (- 1)),
          (''barcode'', CStr ''AGA''), (''barcode_qvals'', CArray [20, 30, 24]),
          (''barcode_accuracy'', CFloat (Fin (array_accuracy [20, 30, 24]))),
          (''read'', CStr ''GCA''), (''read_qvals'', CArray [30, 30, 30]),
          (''read_accuracy'', CFloat (Fin (array_accuracy [30, 30, 30])))]"
  by (simp add: match_row_def ccs_row_cells ccs_search ccs_matcher_sel ccs_rc env0_def use_qvals_def
        default_match_opts_def np_flip_def
        matched_items_def group_items_def slice_cell_def py_slice_def m_start_def m_end_def
        m_group_def accuracy_30)

lemma ccs_row2:
  "match_row env0 ccs_matcher
     ''CCS'' ''barcoded'' default_match_opts [''barcode'', ''read''] (row_of ccs_df (Suc (Suc 0)))
   = Inr [(''barcoded'', CBool False), (''barcoded_polarity'', CInt 0),
          (''barcode'', CStr []), (''barcode_qvals'', CArray []),
          (''barcode_accuracy'', CInt (- 1)),
          (''read'', CStr []), (''read_qvals'', CArray []),
          (''read_accuracy'', CInt (- 1))]"
  by (simp add: match_row_def ccs_row_cells ccs_search ccs_matcher_sel ccs_rc env0_def use_qvals_def
        default_match_opts_def np_flip_def unmatched_items_def)

lemma ccs_column_names: "column_names ccs_df = [''name'', ''CCS'', ''CCS_qvals'', ''passes'']"
  by (simp add: column_names_def ccs_df_def)

lemma default_match_opts_sel:
  "add_polarity default_match_opts" "add_group_cols default_match_opts"
  "add_accuracy default_match_opts" "add_qvals default_match_opts"
  "expandIUPAC default_match_opts" "use_qvals default_match_opts"
  by (simp_all add: default_match_opts_def use_qvals_def)

lemma ccs_barcoded:
  "matchSeqs env0 ccs_df (Some ccs_match_str) ''CCS'' ''barcoded'' default_match_opts False
     = Inr ccs_df_barcoded"
proof -
  let ?mt = "ccs_matcher"
  let ?newcols = "[''barcoded'', ''barcoded_polarity'', ''barcode'', ''read'',
                   ''barcode_accuracy'', ''read_accuracy'', ''barcode_qvals'', ''read_qvals'']"
  have comp: "regex_compile env0 (re_expandIUPAC (NT_TO_REGEXP env0) ccs_match_str) = Inr ?mt"
    by (simp add: env0_def ccs_expand ccs_compile)
  have gs: "match_groupnames default_match_opts ?mt = [''barcode'', ''read'']"
    by (simp add: match_groupnames_def default_match_opts_def ccs_matcher_sel)
  have nc: "match_newcols ''barcoded'' default_match_opts [''barcode'', ''read''] = ?newcols"
    by (simp add: match_newcols_def default_match_opts_def)
  have nd: "new_dict ?newcols = map (\<lambda>c. (c, [])) ?newcols"
    by (simp add: new_dict_def dict_keys_def)
  let ?d = "[(''barcoded'', [CBool True, CBool True, CBool False]),
         (''barcoded_polarity'', [CInt 1, CInt (- 1), CInt 0]),
         (''barcode'', [CStr ''TTC'', CStr ''AGA'', CStr []]),
         (''read'', [CStr ''ACG'', CStr ''GCA'', CStr []]),
         (''barcode_accuracy'',
            [CFloat (Fin (array_accuracy [30, 30, 30])),
             CFloat (Fin (array_accuracy [20, 30, 24])), CInt (- 1)]),
         (''read_accuracy'',
            [CFloat (Fin (array_accuracy [30, 30, 30])),
             CFloat (Fin (array_accuracy [30, 30, 30])), CInt (- 1)]),
         (''barcode_qvals'', [CArray [30, 30, 30], CArray [20, 30, 24], CArray []]),
         (''read_qvals'', [CArray [30, 30, 30], CArray [30, 30, 30], CArray []])]"
  have loop: "rows_loop (match_row env0 ?mt ''CCS'' ''barcoded'' default_match_opts [''barcode'', ''read''])
                (itertuples ccs_df) (new_dict ?newcols) = Inr ?d"
    by (simp add: ccs_rows ccs_row0 ccs_row1 ccs_row2 nd dict_append_def)
  have add: "add_columns ccs_df {} ?d = Inr ccs_df_barcoded"
    by (simp add: add_columns_def ccs_column_names ccs_df_barcoded_def ccs_df_def nrows_def)
  show ?thesis
    unfolding matchSeqs_def
    by (simp add: comp gs nc loop add ccs_column_names default_match_opts_sel Let_def)
qed

lemma ccs_comp:
  "regex_compile env0
     (if expandIUPAC default_match_opts
      then re_expandIUPAC (NT_TO_REGEXP env0) ccs_match_str else ccs_match_str) = Inr ccs_matcher"
  by (simp add: env0_def ccs_expand ccs_compile default_match_opts_sel)

lemma ccs_nrows: "nrows ccs_df = 3"
  by (simp add: nrows_def ccs_df_def)

lemma ccs_cells:
  "get_cell ccs_df ''CCS'' 0 = Some (CStr ''ACGTTCACGCTT'')"
  "get_cell ccs_df ''CCS'' 1 = Some (CStr ''TAAGTGCTCTCGTA'')"
  "get_cell ccs_df ''CCS'' 2 = Some (CStr ''GGGCATGCACTT'')"
  "get_cell ccs_df ''CCS_qvals'' 1
     = Some (CArray [30, 30, 30, 30, 30, 30, 30, 24, 30, 20, 30, 30, 30, 30])"
  by (simp_all add: get_cell_def ccs_df_def)

text \<open>The reverse-complemented read of the example, as an instance of claim C1.\<close>

theorem matchSeqs_reverse_complement_witness:
  "matchSeqs env0 ccs_df (Some ccs_match_str) ''CCS'' ''barcoded'' default_match_opts False
     = Inr ccs_df_barcoded
   \<and> 1 < nrows ccs_df
   \<and> get_cell ccs_df ''CCS'' 1 = Some (CStr ''TAAGTGCTCTCGTA'')
   \<and> search ccs_matcher ''TAAGTGCTCTCGTA'' = None
   \<and> reverseComplement env0 ''TAAGTGCTCTCGTA'' = Inr ''TACGAGAGCACTTA''
   \<and> search ccs_matcher ''TACGAGAGCACTTA'' = Some [(''read'', 7, 10), (''barcode'', 4, 7)]
   \<and> get_cell ccs_df_barcoded ''barcoded'' 1 = Some (CBool True)
   \<and> get_cell ccs_df_barcoded ''barcoded_polarity'' 1 = Some (CInt (- 1))
   \<and> get_cell ccs_df_barcoded ''barcode'' 1 = Some (CStr ''AGA'')
   \<and> get_cell ccs_df_barcoded ''read'' 1 = Some (CStr ''GCA'')
   \<and> get_cell ccs_df_barcoded ''barcode_qvals'' 1 = Some (CArray [20, 30, 24])
   \<and> get_cell ccs_df_barcoded ''barcode_accuracy'' 1
       = Some (CFloat (Fin (array_accuracy [20, 30, 24])))"
proof -
  let ?m = "[(''read'', 7, 10), (''barcode'', 4, 7)] :: rmatch"
  have i: "1 < nrows ccs_df" by (simp add: ccs_nrows)
  have nomatch: "search ccs_matcher ''TAAGTGCTCTCGTA'' = None"
    by (simp add: ccs_matcher_sel ccs_search)
  have rc: "reverseComplement env0 ''TAAGTGCTCTCGTA'' = Inr ''TACGAGAGCACTTA''"
    by (simp add: env0_def ccs_rc)
  have m: "search ccs_matcher ''TACGAGAGCACTTA'' = Some ?m"
    by (simp add: ccs_matcher_sel ccs_search)
  note t = matchSeqs_reverse_complement [OF ccs_barcoded ccs_comp i ccs_cells(2) nomatch rc m]
  from t have c1: "get_cell ccs_df_barcoded ''barcoded'' 1 = Some (CBool True)" by (elim conjE)
  from t have "add_polarity default_match_opts \<longrightarrow>
             get_cell ccs_df_barcoded (''barcoded'' @ ''_polarity'') 1 = Some (CInt (- 1))"
    by (elim conjE)
  then have c2: "get_cell ccs_df_barcoded ''barcoded_polarity'' 1 = Some (CInt (- 1))"
    by (simp add: default_match_opts_sel)
  from t have g0: "add_group_cols default_match_opts \<longrightarrow> (\<forall>g \<in> set (groupindex ccs_matcher).
             get_cell ccs_df_barcoded g 1 = Some (m_group ''TACGAGAGCACTTA'' ?m g)
           \<and> (add_qvals default_match_opts \<or> add_accuracy default_match_opts \<longrightarrow>
               (\<exists>qs. get_cell ccs_df (''CCS'' @ ''_qvals'') 1 = Some (CArray qs)
                 \<and> (add_qvals default_match_opts \<longrightarrow>
                      get_cell ccs_df_barcoded (g @ ''_qvals'') 1
                        = Some (CArray (py_slice (rev qs) (m_start ?m g) (m_end ?m g))))
                 \<and> (add_accuracy default_match_opts \<longrightarrow>
                      (\<exists>acc. qvalsToAccuracy
                                (QArray (py_slice (rev qs) (m_start ?m g) (m_end ?m g)))
                                ''numbers'' = Inr acc
                           \<and> get_cell ccs_df_barcoded (g @ ''_accuracy'') 1 = Some (CFloat acc))))))"
    by (elim conjE)
  from g0 have g: "\<forall>g \<in> set (groupindex ccs_matcher).
             get_cell ccs_df_barcoded g 1 = Some (m_group ''TACGAGAGCACTTA'' ?m g)
           \<and> (\<exists>qs. get_cell ccs_df (''CCS'' @ ''_qvals'') 1 = Some (CArray qs)
                 \<and> get_cell ccs_df_barcoded (g @ ''_qvals'') 1
                        = Some (CArray (py_slice (rev qs) (m_start ?m g) (m_end ?m g)))
                 \<and> (\<exists>acc. qvalsToAccuracy
                                (QArray (py_slice (rev qs) (m_start ?m g) (m_end ?m g)))
                                ''numbers'' = Inr acc
                           \<and> get_cell ccs_df_barcoded (g @ ''_accuracy'') 1 = Some (CFloat acc)))"
    by (simp only: default_match_opts_sel simp_thms)
  from g have gb: "get_cell ccs_df_barcoded ''barcode'' 1
                     = Some (m_group ''TACGAGAGCACTTA'' ?m ''barcode'')
           \<and> (\<exists>qs. get_cell ccs_df ''CCS_qvals'' 1 = Some (CArray qs)
                 \<and> get_cell ccs_df_barcoded ''barcode_qvals'' 1
                        = Some (CArray (py_slice (rev qs) (m_start ?m ''barcode'') (m_end ?m ''barcode'')))
                 \<and> (\<exists>acc. qvalsToAccuracy
                                (QArray (py_slice (rev qs) (m_start ?m ''barcode'') (m_end ?m ''barcode'')))
                                ''numbers'' = Inr acc
                           \<and> get_cell ccs_df_barcoded ''barcode_accuracy'' 1 = Some (CFloat acc)))"
    by (simp add: ccs_matcher_sel)
  from g have gr: "get_cell ccs_df_barcoded ''read'' 1 = Some (m_group ''TACGAGAGCACTTA'' ?m ''read'')"
    by (simp add: ccs_matcher_sel)
  from gb obtain qs acc where
    q1: "get_cell ccs_df ''CCS_qvals'' 1 = Some (CArray qs)"
    and q2: "get_cell ccs_df_barcoded ''barcode_qvals'' 1
               = Some (CArray (py_slice (rev qs) (m_start ?m ''barcode'') (m_end ?m ''barcode'')))"
    and q3: "qvalsToAccuracy
               (QArray (py_slice (rev qs) (m_start ?m ''barcode'') (m_end ?m ''barcode'')))
               ''numbers'' = Inr acc"
    and q4: "get_cell ccs_df_barcoded ''barcode_accuracy'' 1 = Some (CFloat acc)"
    by blast
  from q1 ccs_cells(4) have qs: "qs = [30, 30, 30, 30, 30, 30, 30, 24, 30, 20, 30, 30, 30, 30]"
    by simp
  have sl: "py_slice (rev qs) (m_start ?m ''barcode'') (m_end ?m ''barcode'') = [20, 30, 24]"
    unfolding qs by (simp add: py_slice_def m_start_def m_end_def)
  from gb have c3: "get_cell ccs_df_barcoded ''barcode'' 1 = Some (CStr ''AGA'')"
    by (simp add: m_group_def py_slice_def)
  from gr have c4: "get_cell ccs_df_barcoded ''read'' 1 = Some (CStr ''GCA'')"
    by (simp add: m_group_def py_slice_def)
  from q2 have c5: "get_cell ccs_df_barcoded ''barcode_qvals'' 1 = Some (CArray [20, 30, 24])"
    by (simp only: sl)
  from q3 have "acc = Fin (array_accuracy [20, 30, 24])"
    by (simp only: sl accuracy_30 sum.inject)
  with q4 have c6: "get_cell ccs_df_barcoded ''barcode_accuracy'' 1
       = Some (CFloat (Fin (array_accuracy [20, 30, 24])))"
    by simp
  show ?thesis
    by (intro conjI) (rule ccs_barcoded i ccs_cells(2) nomatch rc m c1 c2 c3 c4 c5 c6)+
qed

lemma termini_expand: "re_expandIUPAC NT_TO_REGEXP_iupac ''ACG'' = ''ACG''"
  by code_simp

lemma termini_lex_parse:
  "(case lex ''ACG'' of
      Inl e \<Rightarrow> None
    | Inr ts \<Rightarrow> Some (parse [] [] [] ts, dict_keys (token_names ts)))
   = Some (Inr termini_regex, [])"
  by code_simp

lemma termini_compile: "re_compile ''ACG'' = Inr termini_matcher"
  using termini_lex_parse unfolding re_compile_def termini_matcher_def
  by (auto split: sum.splits)

lemma termini_search: "re_search termini_regex ''ACGTTCACGCTT'' = Some []"
  by code_simp

lemma purine_expand: "re_expandIUPAC NT_TO_REGEXP_iupac ''(?P<x>R*)ACG'' = ''(?P<x>[AG]*)ACG''"
  by code_simp

lemma purine_lex_parse:
  "(case lex ''(?P<x>[AG]*)ACG'' of
      Inl e \<Rightarrow> None
    | Inr ts \<Rightarrow> Some (parse [] [] [] ts, dict_keys (token_names ts)))
   = Some (Inr purine_regex, [''x''])"
  by code_simp

lemma purine_compile: "re_compile ''(?P<x>[AG]*)ACG'' = Inr purine_matcher"
  using purine_lex_parse unfolding re_compile_def purine_matcher_def
  by (auto split: sum.splits)

lemma purine_search: "re_search purine_regex ''ACGTTCACGCTT'' = Some [(''x'', 0, 0)]"
  by code_simp

lemma ccs1_rows: "itertuples ccs_df1 = [row_of ccs_df1 0]"
  by (simp add: itertuples_def nrows_def ccs_df1_def)

lemma ccs1_row_cells:
  "row_of ccs_df1 0 ''CCS'' = Inr (CStr ''ACGTTCACGCTT'')"
  "row_of ccs_df1 0 ''CCS_qvals'' = Inr (CArray [30, 30, 30, 30, 30, 30, 30, 30, 30, 30, 30, 30])"
  by (simp_all add: row_of_def get_cell_def ccs_df1_def)

lemma ccs1_column_names: "column_names ccs_df1 = [''name'', ''CCS'', ''CCS_qvals'']"
  by (simp add: column_names_def ccs_df1_def)

lemma termini_call:
  "matchSeqs env0 ccs_df1 (Some ''ACG'') ''CCS'' ''has_termini5'' default_match_opts False
     = Inr ccs_df1_termini"
proof -
  let ?newcols = "[''has_termini5'', ''has_termini5_polarity'']"
  let ?d = "[(''has_termini5'', [CBool True]), (''has_termini5_polarity'', [CInt 1])]"
  have comp: "regex_compile env0 (re_expandIUPAC (NT_TO_REGEXP env0) ''ACG'') = Inr termini_matcher"
    by (simp add: env0_def termini_expand termini_compile)
  have gs: "match_groupnames default_match_opts termini_matcher = []"
    by (simp add: match_groupnames_def termini_matcher_def)
  have nc: "match_newcols ''has_termini5'' default_match_opts [] = ?newcols"
    by (simp add: match_newcols_def default_match_opts_def)
  have nd: "new_dict ?newcols = map (\<lambda>c. (c, [])) ?newcols"
    by (simp add: new_dict_def dict_keys_def)
  have row: "match_row env0 termini_matcher ''CCS'' ''has_termini5'' default_match_opts []
               (row_of ccs_df1 0)
             = Inr [(''has_termini5'', CBool True), (''has_termini5_polarity'', CInt 1)]"
    by (simp add: match_row_def ccs1_row_cells termini_matcher_def termini_search
          default_match_opts_sel matched_items_def)
  have loop: "rows_loop (match_row env0 termini_matcher ''CCS'' ''has_termini5'' default_match_opts [])
                (itertuples ccs_df1) (new_dict ?newcols) = Inr ?d"
    by (simp add: ccs1_rows row nd dict_append_def)
  have add: "add_columns ccs_df1 {} ?d = Inr ccs_df1_termini"
    by (simp add: add_columns_def ccs_df1_termini_def ccs_df1_def nrows_def)
  show ?thesis
    unfolding matchSeqs_def
    by (simp add: comp gs nc loop add ccs1_column_names default_match_opts_sel Let_def)
qed

lemma no_accuracy_opts_sel:
  "add_polarity no_accuracy_opts" "add_group_cols no_accuracy_opts"
  "\<not> add_accuracy no_accuracy_opts" "add_qvals no_accuracy_opts"
  "expandIUPAC no_accuracy_opts" "use_qvals no_accuracy_opts"
  by (simp_all add: no_accuracy_opts_def default_match_opts_def use_qvals_def)

lemma purine_call:
  "matchSeqs env0 ccs_df1 (Some ''(?P<x>R*)ACG'') ''CCS'' ''m'' no_accuracy_opts False
     = Inr ccs_df1_purine"
proof -
  let ?newcols = "[''m'', ''m_polarity'', ''x'', ''x_qvals'']"
  let ?d = "[(''m'', [CBool True]), (''m_polarity'', [CInt 1]), (''x'', [CStr []]),
             (''x_qvals'', [CArray []])]"
  have comp: "regex_compile env0 (re_expandIUPAC (NT_TO_REGEXP env0) ''(?P<x>R*)ACG'')
                = Inr purine_matcher"
    by (simp add: env0_def purine_expand purine_compile)
  have gs: "match_groupnames no_accuracy_opts purine_matcher = [''x'']"
    by (simp add: match_groupnames_def purine_matcher_def no_accuracy_opts_sel)
  have nc: "match_newcols ''m'' no_accuracy_opts [''x''] = ?newcols"
    by (simp add: match_newcols_def no_accuracy_opts_sel)
  have nd: "new_dict ?newcols = map (\<lambda>c. (c, [])) ?newcols"
    by (simp add: new_dict_def dict_keys_def)
  have row: "match_row env0 purine_matcher ''CCS'' ''m'' no_accuracy_opts [''x''] (row_of ccs_df1 0)
             = Inr [(''m'', CBool True), (''m_polarity'', CInt 1), (''x'', CStr []),
                    (''x_qvals'', CArray [])]"
    by (simp add: match_row_def ccs1_row_cells purine_matcher_def purine_search
          no_accuracy_opts_sel matched_items_def group_items_def slice_cell_def py_slice_def
          m_start_def m_end_def m_group_def)
  have loop: "rows_loop (match_row env0 purine_matcher ''CCS'' ''m'' no_accuracy_opts [''x''])
                (itertuples ccs_df1) (new_dict ?newcols) = Inr ?d"
    by (simp add: ccs1_rows row nd dict_append_def)
  have add: "add_columns ccs_df1 {} ?d = Inr ccs_df1_purine"
    by (simp add: add_columns_def ccs_df1_purine_def ccs_df1_def nrows_def)
  show ?thesis
    unfolding matchSeqs_def
    by (simp add: comp gs nc loop add ccs1_column_names no_accuracy_opts_sel Let_def)
qed

text \<open>
  Claim C3 as stated fails: a matched row with polarity 1 holds the sentinel in every
  group column when the pattern has no named group, and also when its only group matches
  the empty string and no accuracy column is asked for.
\<close>

theorem matchSeqs_sentinel_equivalence_counterexample:
  "matchSeqs env0 ccs_df1 (Some ''ACG'') ''CCS'' ''has_termini5'' default_match_opts False
     = Inr ccs_df1_termini
   \<and> get_cell ccs_df1_termini ''has_termini5'' 0 = Some (CBool True)
   \<and> get_cell ccs_df1_termini ''has_termini5_polarity'' 0 = Some (CInt 1)
   \<and> group_sentinels ccs_df1_termini default_match_opts
        (match_groupnames default_match_opts termini_matcher) 0
   \<and> matchSeqs env0 ccs_df1 (Some ''(?P<x>R*)ACG'') ''CCS'' ''m'' no_accuracy_opts False
     = Inr ccs_df1_purine
   \<and> get_cell ccs_df1_purine ''m'' 0 = Some (CBool True)
   \<and> get_cell ccs_df1_purine ''m_polarity'' 0 = Some (CInt 1)
   \<and> match_groupnames no_accuracy_opts purine_matcher = [''x'']
   \<and> group_sentinels ccs_df1_purine no_accuracy_opts
        (match_groupnames no_accuracy_opts purine_matcher) 0"
proof -
  have t: "get_cell ccs_df1_termini ''has_termini5'' 0 = Some (CBool True)"
      "get_cell ccs_df1_termini ''has_termini5_polarity'' 0 = Some (CInt 1)"
    by (simp_all add: get_cell_def ccs_df1_termini_def ccs_df1_def)
  have tg: "group_sentinels ccs_df1_termini default_match_opts
              (match_groupnames default_match_opts termini_matcher) 0"
    by (simp add: group_sentinels_def match_groupnames_def termini_matcher_def)
  have p: "get_cell ccs_df1_purine ''m'' 0 = Some (CBool True)"
      "get_cell ccs_df1_purine ''m_polarity'' 0 = Some (CInt 1)"
    by (simp_all add: get_cell_def ccs_df1_purine_def ccs_df1_def)
  have pn: "match_groupnames no_accuracy_opts purine_matcher = [''x'']"
    by (simp add: match_groupnames_def purine_matcher_def no_accuracy_opts_sel)
  have pg: "group_sentinels ccs_df1_purine no_accuracy_opts
              (match_groupnames no_accuracy_opts purine_matcher) 0"
    unfolding pn
    by (simp add: group_sentinels_def no_accuracy_opts_sel get_cell_def ccs_df1_purine_def
          ccs_df1_def)
  show ?thesis
    by (intro conjI) (rule termini_call purine_call t tg p pn pg)+
qed

text \<open>The unmatched and the first matched read of the example, as instances of claim C3.\<close>

theorem matchSeqs_unmatched_sentinels_witness:
  "matchSeqs env0 ccs_df (Some ccs_match_str) ''CCS'' ''barcoded'' default_match_opts False
     = Inr ccs_df_barcoded
   \<and> 2 < nrows ccs_df
   \<and> get_cell ccs_df ''CCS'' 2 = Some (CStr ''GGGCATGCACTT'')
   \<and> search ccs_matcher ''GGGCATGCACTT'' = None
   \<and> reverseComplement env0 ''GGGCATGCACTT'' = Inr ''AAGTGCATGCCC''
   \<and> search ccs_matcher ''AAGTGCATGCCC'' = None
   \<and> get_cell ccs_df_barcoded ''barcoded'' 2 = Some (CBool False)
   \<and> get_cell ccs_df_barcoded ''barcoded_polarity'' 2 = Some (CInt 0)
   \<and> group_sentinels ccs_df_barcoded default_match_opts [''barcode'', ''read''] 2
   \<and> get_cell ccs_df ''CCS'' 0 = Some (CStr ''ACGTTCACGCTT'')
   \<and> search ccs_matcher ''ACGTTCACGCTT'' = Some [(''read'', 6, 9), (''barcode'', 3, 6)]
   \<and> get_cell ccs_df_barcoded ''barcoded'' 0 = Some (CBool True)
   \<and> get_cell ccs_df_barcoded ''barcoded_polarity'' 0 \<noteq> Some (CInt 0)
   \<and> \<not> group_sentinels ccs_df_barcoded default_match_opts [''barcode'', ''read''] 0"
proof -
  have i2: "2 < nrows ccs_df" and i0: "0 < nrows ccs_df" by (simp_all add: ccs_nrows)
  have gs: "match_groupnames default_match_opts ccs_matcher = [''barcode'', ''read'']"
    by (simp add: match_groupnames_def default_match_opts_sel ccs_matcher_sel)
  note t2 = matchSeqs_unmatched_sentinels [OF ccs_barcoded ccs_comp i2, unfolded gs]
  note t0 = matchSeqs_unmatched_sentinels [OF ccs_barcoded ccs_comp i0, unfolded gs]
  have s2: "search ccs_matcher ''GGGCATGCACTT'' = None"
    by (simp add: ccs_matcher_sel ccs_search)
  have r2: "reverseComplement env0 ''GGGCATGCACTT'' = Inr ''AAGTGCATGCCC''"
    by (simp add: env0_def ccs_rc)
  have q2: "search ccs_matcher ''AAGTGCATGCCC'' = None"
    by (simp add: ccs_matcher_sel ccs_search)
  have s0: "search ccs_matcher ''ACGTTCACGCTT'' = Some [(''read'', 6, 9), (''barcode'', 3, 6)]"
    by (simp add: ccs_matcher_sel ccs_search)
  have h2: "get_cell ccs_df ''CCS'' 2 = Some (CStr ''GGGCATGCACTT'')
            \<and> search ccs_matcher ''GGGCATGCACTT'' = None
            \<and> reverseComplement env0 ''GGGCATGCACTT'' = Inr ''AAGTGCATGCCC''
            \<and> search ccs_matcher ''AAGTGCATGCCC'' = None"
    by (intro conjI) (rule ccs_cells(3) s2 r2 q2)+
  note C2 = t2 [THEN conjunct2, THEN conjunct2, THEN conjunct2, THEN conjunct2, THEN conjunct1,
                rule_format, OF h2]
  note m2 = C2 [THEN conjunct1]
  have p2: "get_cell ccs_df_barcoded ''barcoded_polarity'' 2 = Some (CInt 0)"
    using C2 [THEN conjunct2, THEN conjunct1] by (simp add: default_match_opts_sel)
  note g2 = C2 [THEN conjunct2, THEN conjunct2]
  note B0 = t0 [THEN conjunct2, THEN conjunct2, THEN conjunct2, THEN conjunct1]
  from B0 obtain s where
    s: "get_cell ccs_df ''CCS'' 0 = Some (CStr s)"
    and iff: "get_cell ccs_df_barcoded ''barcoded'' 0 = Some (CBool False)
                \<longleftrightarrow> search ccs_matcher s = None
                     \<and> (\<exists>rc. reverseComplement env0 s = Inr rc \<and> search ccs_matcher rc = None)"
    by (elim exE conjE)
  from s have "s = ''ACGTTCACGCTT''" by (simp add: ccs_cells)
  with iff s0 have nf: "get_cell ccs_df_barcoded ''barcoded'' 0 \<noteq> Some (CBool False)"
    by simp
  with t0 [THEN conjunct1] have m0: "get_cell ccs_df_barcoded ''barcoded'' 0 = Some (CBool True)"
    by simp
  have nonneg: "\<forall>qs. get_cell ccs_df (''CCS'' @ ''_qvals'') 0 = Some (CArray qs)
                  \<longrightarrow> (\<forall>q \<in> set qs. 0 \<le> q)"
    by (simp add: get_cell_def ccs_df_def)
  from t0 [THEN conjunct2, THEN conjunct1] nf
  have p0: "get_cell ccs_df_barcoded ''barcoded_polarity'' 0 \<noteq> Some (CInt 0)"
    by (simp add: default_match_opts_sel)
  from t0 [THEN conjunct2, THEN conjunct2, THEN conjunct2, THEN conjunct2, THEN conjunct2] nf nonneg
  have n0: "\<not> group_sentinels ccs_df_barcoded default_match_opts [''barcode'', ''read''] 0"
    by (simp add: default_match_opts_sel ccs_matcher_sel)
  show ?thesis
    by (intro conjI) (rule ccs_barcoded i2 ccs_cells(3) s2 r2 q2 m2 p2 g2 ccs_cells(1) s0 m0 p0 n0)+
qed

lemma re_expandIUPAC_nt_expand:
  "re_expandIUPAC tbl s =
     concat (map (\<lambda>(i, c). if i \<in> groupname_indices s then [c] else nt_expand tbl c)
               (enumerate 0 s))"
proof -
  have "(\<lambda>(i, c). if i \<notin> groupname_indices s \<and> c \<in> dom tbl then the (tbl c) else [c])
        = (\<lambda>(i, c). if i \<in> groupname_indices s then [c] else nt_expand tbl c)"
    by (auto simp: fun_eq_iff nt_expand_def split: option.splits)
  then show ?thesis by (simp add: re_expandIUPAC_def)
qed

lemma ccs_finditer: "finditer 0 ccs_match_str = [(3, 15), (20, 29)]"
  by code_simp

lemma ccs_groupname_indices: "groupname_indices ccs_match_str = {3..<15} \<union> {20..<29}"
  by (simp add: groupname_indices_def ccs_finditer)

lemma ccs_expand_any_table:
  assumes n: "tbl CHR ''N'' = Some ''[ACGT]''"
    and nts: "\<forall>c \<in> set ''ACGT''. tbl c = None \<or> tbl c = Some [c]"
    and others: "\<forall>c \<in> set ''{3})+''. tbl c = None"
  shows "re_expandIUPAC tbl ccs_match_str = ''ACG(?P<barcode>[ACGT]{3})(?P<read>[ACGT]+)CTT''"
proof -
  have e: "nt_expand tbl CHR ''N'' = ''[ACGT]''"
      "nt_expand tbl CHR ''A'' = ''A''" "nt_expand tbl CHR ''C'' = ''C''"
      "nt_expand tbl CHR ''G'' = ''G''" "nt_expand tbl CHR ''T'' = ''T''"
      "nt_expand tbl CHR ''{'' = ''{''" "nt_expand tbl CHR ''3'' = ''3''"
      "nt_expand tbl CHR ''}'' = ''}''" "nt_expand tbl CHR '')'' = '')''"
      "nt_expand tbl CHR ''+'' = ''+''"
    using n nts others by (auto simp: nt_expand_def)
  show ?thesis
    unfolding re_expandIUPAC_nt_expand ccs_groupname_indices
    by (simp add: ccs_match_str_def e)
qed

text \<open>
  Claim C2. With \<^verbatim>\<open>regex.compile\<close> as modelled for the fragment, and a table that maps
  \<^verbatim>\<open>N\<close> to \<^verbatim>\<open>[ACGT]\<close>, keeps \<^verbatim>\<open>A\<close>, \<^verbatim>\<open>C\<close>, \<^verbatim>\<open>G\<close>, \<^verbatim>\<open>T\<close> and has no entry for the other
  characters of the pattern: whenever \<^verbatim>\<open>matchSeqs\<close> with the pattern
  \<^verbatim>\<open>ACG(?P<barcode>N{3})(?P<read>N+)CTT\<close> and \<^verbatim>\<open>expandIUPAC\<close> returns a table, a row whose
  sequence is \<^verbatim>\<open>ACGTTCACGCTT\<close> is matched, with polarity \<open>+1\<close>, barcode \<^verbatim>\<open>TTC\<close> and read
  \<^verbatim>\<open>ACG\<close>.
\<close>

theorem matchSeqs_scenario_forward:
  assumes re: "regex_compile ev = re_compile"
    and n: "NT_TO_REGEXP ev CHR ''N'' = Some ''[ACGT]''"
    and nts: "\<forall>c \<in> set ''ACGT''. NT_TO_REGEXP ev c = None \<or> NT_TO_REGEXP ev c = Some [c]"
    and others: "\<forall>c \<in> set ''{3})+''. NT_TO_REGEXP ev c = None"
    and ex: "expandIUPAC opts"
    and ok: "matchSeqs ev df (Some ''ACG(?P<barcode>N{3})(?P<read>N+)CTT'')
               col_to_match match_col opts overwrite = Inr df'"
    and i: "i < nrows df"
    and s: "get_cell df col_to_match i = Some (CStr ''ACGTTCACGCTT'')"
  shows "get_cell df' match_col i = Some (CBool True)
       \<and> (add_polarity opts \<longrightarrow> get_cell df' (match_col @ ''_polarity'') i = Some (CInt 1))
       \<and> (add_group_cols opts \<longrightarrow>
            get_cell df' ''barcode'' i = Some (CStr ''TTC'')
          \<and> get_cell df' ''read'' i = Some (CStr ''ACG''))"
proof -
  let ?pat = "''ACG(?P<barcode>N{3})(?P<read>N+)CTT''"
  let ?gs = "match_groupnames opts ccs_matcher"
  have comp: "regex_compile ev
                (if expandIUPAC opts then re_expandIUPAC (NT_TO_REGEXP ev) ?pat else ?pat)
              = Inr ccs_matcher"
    using ccs_expand_any_table [OF n nts others] ex
    by (simp add: re ccs_compile ccs_match_str_def)
  from matchSeqs_row [OF ok comp i] obtain items where
    row: "match_row ev ccs_matcher col_to_match match_col opts ?gs (row_of df i) = Inr items"
    and cells: "\<And>k v. (k, v) \<in> set items \<Longrightarrow> get_cell df' k i = Some v"
    by blast
  have sc: "row_of df i col_to_match = Inr (CStr ''ACGTTCACGCTT'')"
    using s by (rule row_of_get_cell)
  have found: "search ccs_matcher ''ACGTTCACGCTT'' = Some [(''read'', 6, 9), (''barcode'', 3, 6)]"
    by (simp add: ccs_matcher_sel ccs_search)
  from row show ?thesis
  proof (cases rule: match_row_cases)
    case (forward s' qs m)
    from forward(1) sc have s': "s' = ''ACGTTCACGCTT''" by simp
    from forward(3) found s' have m: "m = [(''read'', 6, 9), (''barcode'', 3, 6)]" by simp
    note mi = matched_items_mem [OF forward(4)]
    have c1: "get_cell df' match_col i = Some (CBool True)" using cells mi(1) by blast
    have c2: "add_polarity opts \<longrightarrow> get_cell df' (match_col @ ''_polarity'') i = Some (CInt 1)"
      using cells mi(2) by blast
    have c3: "add_group_cols opts \<longrightarrow>
            get_cell df' ''barcode'' i = Some (CStr ''TTC'')
          \<and> get_cell df' ''read'' i = Some (CStr ''ACG'')"
    proof (intro impI conjI)
      assume "add_group_cols opts"
      then have gs: "?gs = [''barcode'', ''read'']"
        by (simp add: match_groupnames_def ccs_matcher_sel)
      have "get_cell df' ''barcode'' i = Some (m_group s' m ''barcode'')"
        using cells mi(3) [of "''barcode''"] gs by simp
      then show "get_cell df' ''barcode'' i = Some (CStr ''TTC'')"
        by (simp add: s' m m_group_def py_slice_def)
      have "get_cell df' ''read'' i = Some (m_group s' m ''read'')"
        using cells mi(3) [of "''read''"] gs by simp
      then show "get_cell df' ''read'' i = Some (CStr ''ACG'')"
        by (simp add: s' m m_group_def py_slice_def)
    qed
    from c1 c2 c3 show ?thesis by (intro conjI)
  next
    case (reverse s' qs rc qs' m)
    with sc found show ?thesis by simp
  next
    case (unmatched s' qs rc qs')
    with sc found show ?thesis by simp
  qed
qed

theorem matchSeqs_scenario_forward_witness:
  "regex_compile env0 = re_compile
   \<and> NT_TO_REGEXP env0 CHR ''N'' = Some ''[ACGT]''
   \<and> NT_TO_REGEXP env0 CHR ''A'' = Some ''A''
   \<and> NT_TO_REGEXP env0 CHR ''{'' = None
   \<and> expandIUPAC default_match_opts
   \<and> matchSeqs env0 ccs_df (Some ''ACG(?P<barcode>N{3})(?P<read>N+)CTT'') ''CCS'' ''barcoded''
        default_match_opts False = Inr ccs_df_barcoded
   \<and> 0 < nrows ccs_df
   \<and> get_cell ccs_df ''CCS'' 0 = Some (CStr ''ACGTTCACGCTT'')
   \<and> get_cell ccs_df_barcoded ''barcoded'' 0 = Some (CBool True)
   \<and> get_cell ccs_df_barcoded ''barcoded_polarity'' 0 = Some (CInt 1)
   \<and> get_cell ccs_df_barcoded ''barcode'' 0 = Some (CStr ''TTC'')
   \<and> get_cell ccs_df_barcoded ''read'' 0 = Some (CStr ''ACG'')"
proof -
  have re: "regex_compile env0 = re_compile" by (simp add: env0_def)
  have n: "NT_TO_REGEXP env0 CHR ''N'' = Some ''[ACGT]''"
    by (simp add: env0_def NT_TO_REGEXP_iupac_def)
  have a: "NT_TO_REGEXP env0 CHR ''A'' = Some ''A''"
    by (simp add: env0_def NT_TO_REGEXP_iupac_def)
  have b: "NT_TO_REGEXP env0 CHR ''{'' = None"
    by (simp add: env0_def NT_TO_REGEXP_iupac_def)
  have nts: "\<forall>c \<in> set ''ACGT''. NT_TO_REGEXP env0 c = None \<or> NT_TO_REGEXP env0 c = Some [c]"
    by (simp add: env0_def NT_TO_REGEXP_iupac_def)
  have others: "\<forall>c \<in> set ''{3})+''. NT_TO_REGEXP env0 c = None"
    by (simp add: env0_def NT_TO_REGEXP_iupac_def)
  have ex: "expandIUPAC default_match_opts" by (rule default_match_opts_sel)
  have ok: "matchSeqs env0 ccs_df (Some ''ACG(?P<barcode>N{3})(?P<read>N+)CTT'') ''CCS''
              ''barcoded'' default_match_opts False = Inr ccs_df_barcoded"
    using ccs_barcoded by (simp add: ccs_match_str_def)
  have i: "0 < nrows ccs_df" by (simp add: ccs_nrows)
  note t = matchSeqs_scenario_forward [OF re n nts others ex ok i ccs_cells(1)]
  from t have c1: "get_cell ccs_df_barcoded ''barcoded'' 0 = Some (CBool True)"
    by (elim conjE)
  from t have c2: "get_cell ccs_df_barcoded ''barcoded_polarity'' 0 = Some (CInt 1)"
    by (simp add: default_match_opts_sel)
  from t have c3: "get_cell ccs_df_barcoded ''barcode'' 0 = Some (CStr ''TTC'')"
    and c4: "get_cell ccs_df_barcoded ''read'' 0 = Some (CStr ''ACG'')"
    by (simp_all add: default_match_opts_sel)
  show ?thesis
    by (intro conjI) (rule re n a b ex ok i ccs_cells(1) c1 c2 c3 c4)+
qed

section \<open>The concrete mapper, evaluated\<close>

lemma default_align_opts_sel:
  "add_alignment default_align_opts" "add_target default_align_opts"
  "add_cigar default_align_opts" "add_n_trimmed default_align_opts"
  "add_n_additional default_align_opts" "add_n_additional_difftarget default_align_opts"
  "targetvariants default_align_opts = None" "mutationcaller default_align_opts = None"
  "paf_file default_align_opts = None" "\<not> qvals_assigned default_align_opts"
  by (simp_all add: default_align_opts_def qvals_assigned_def)


lemma aln_names:
  "map_of (columns aln_df) ''name'' = Some [CStr ''read1'', CStr ''read2'', CStr ''read3'']"
  by (simp add: aln_df_def)

lemma aln_queries:
  "align_queries aln_df ''gene'' [CStr ''read1'', CStr ''read2'', CStr ''read3'']
     = [(CStr ''read1'', CStr ''ACGTTCACGCTT''), (CStr ''read2'', CStr ''TTGTTCACGCAA'')]"
  by (simp add: align_queries_def aln_df_def)

lemma aln_mapper_map:
  "mapper_map mapper0 [(CStr ''read1'', CStr ''ACGTTCACGCTT''), (CStr ''read2'', CStr ''TTGTTCACGCAA'')] None
     = Inr aln_map_dict"
  by (simp add: mapper0_def aln_map_dict_def)

lemma aln_map_dict_simps:
  "aln_map_dict (CStr ''read1'') = Some aln_full"
  "aln_map_dict (CStr ''read2'') = Some aln_trimmed"
  "aln_map_dict (CStr ''read3'') = None"
  by (simp_all add: aln_map_dict_def)

lemma aln_newcols:
  "align_newcols ''gene_aligned'' default_align_opts = map fst aln_new_columns"
  by (simp add: align_newcols_def default_align_opts_sel trim_suffixes_def aln_new_columns_def)


lemma aln_row1:
  "align_row mapper0 aln_map_dict ''gene_aligned'' default_align_opts (CStr ''read1'', None)
   = Inr [(''gene_aligned'', CBool True),
          (''gene_aligned_alignment'', CAlign aln_full),
          (''gene_aligned_target'', CStr ''gene1''),
          (''gene_aligned_cigar'', CStr ''=ACGTTCACGCTT''),
          (''gene_aligned_n_trimmed_query_start'', CInt 0),
          (''gene_aligned_n_trimmed_query_end'', CInt 0),
          (''gene_aligned_n_trimmed_target_start'', CInt 0),
          (''gene_aligned_n_trimmed_target_end'', CInt 0),
          (''gene_aligned_n_additional'', CInt 0),
          (''gene_aligned_n_additional_difftarget'', CInt 0)]"
  by (simp add: align_row_def aln_map_dict_simps aligned_items_def default_align_opts_sel
        n_additional_difftarget_def aln_full_def)

lemma aln_row2:
  "align_row mapper0 aln_map_dict ''gene_aligned'' default_align_opts (CStr ''read2'', None)
   = Inr [(''gene_aligned'', CBool True),
          (''gene_aligned_alignment'', CAlign aln_trimmed),
          (''gene_aligned_target'', CStr ''gene1''),
          (''gene_aligned_cigar'', CStr ''=GTTCACGC''),
          (''gene_aligned_n_trimmed_query_start'', CInt 2),
          (''gene_aligned_n_trimmed_query_end'', CInt 2),
          (''gene_aligned_n_trimmed_target_start'', CInt 5),
          (''gene_aligned_n_trimmed_target_end'', CInt 7),
          (''gene_aligned_n_additional'', CInt 1),
          (''gene_aligned_n_additional_difftarget'', CInt 1)]"
  by (simp add: align_row_def aln_map_dict_simps aligned_items_def default_align_opts_sel
        n_additional_difftarget_def aln_trimmed_def aln_extra_def mapper0_def)

lemma aln_row3:
  "align_row mapper0 aln_map_dict ''gene_aligned'' default_align_opts (CStr ''read3'', None)
   = Inr [(''gene_aligned'', CBool False),
          (''gene_aligned_alignment'', CNone),
          (''gene_aligned_target'', CStr []),
          (''gene_aligned_cigar'', CStr []),
          (''gene_aligned_n_trimmed_query_start'', CInt (- 1)),
          (''gene_aligned_n_trimmed_query_end'', CInt (- 1)),
          (''gene_aligned_n_trimmed_target_start'', CInt (- 1)),
          (''gene_aligned_n_trimmed_target_end'', CInt (- 1)),
          (''gene_aligned_n_additional'', CInt (- 1)),
          (''gene_aligned_n_additional_difftarget'', CInt (- 1))]"
  by (simp add: align_row_def aln_map_dict_simps unaligned_items_def default_align_opts_sel
        trim_suffixes_def)

lemma aln_loop:
  "rows_loop (align_row mapper0 aln_map_dict ''gene_aligned'' default_align_opts)
     [(CStr ''read1'', None), (CStr ''read2'', None), (CStr ''read3'', None)]
     (new_dict (map fst aln_new_columns)) = Inr aln_new_columns"
  by (simp add: aln_row1 aln_row2 aln_row3 new_dict_def dict_keys_def dict_append_def
        aln_new_columns_def)





lemma minus_md:
  "mapper_map mapper_minus
     (align_queries aln_df ''gene'' [CStr ''read1'', CStr ''read2'', CStr ''read3''])
     (paf_file default_align_opts)
   = Inr (\<lambda>name. if name \<in> fst ` set [(CStr ''read1'', CStr ''ACGTTCACGCTT''),
                                        (CStr ''read2'', CStr ''TTGTTCACGCAA'')]
                  then map_of [(CStr ''read1'', aln_full), (CStr ''read2'', aln_minus)] name
                  else None)"
  by (simp add: aln_queries mapper_minus_def)

text \<open>A mapper that returns a reverse-strand alignment for the second read: claim C8.\<close>

theorem alignSeqs_reverse_strand_fatal_witness:
  "map_of (columns aln_df) ''name'' = Some [CStr ''read1'', CStr ''read2'', CStr ''read3'']
   \<and> (1::nat) < length [CStr ''read1'', CStr ''read2'', CStr ''read3'']
   \<and> strand aln_minus \<noteq> 1
   \<and> (\<exists>e. alignSeqs aln_df mapper_minus ''gene'' ''gene_aligned'' default_align_opts True = Inl e)"
proof -
  let ?names = "[CStr ''read1'', CStr ''read2'', CStr ''read3'']"
  let ?md = "\<lambda>name. if name \<in> fst ` set [(CStr ''read1'', CStr ''ACGTTCACGCTT''),
                                        (CStr ''read2'', CStr ''TTGTTCACGCAA'')]
                  then map_of [(CStr ''read1'', aln_full), (CStr ''read2'', aln_minus)] name
                  else None"
  have i: "(1::nat) < length ?names" by simp
  have a: "?md (?names ! 1) = Some aln_minus" by simp
  have st: "strand aln_minus \<noteq> 1" by (simp add: aln_minus_def)
  note t = alignSeqs_reverse_strand_fatal [OF aln_names minus_md i a st,
             of "''gene_aligned''" True]
  show ?thesis
    by (intro conjI) (rule aln_names i st t)+
qed

lemma match_row_cong:
  assumes "tup col_to_match = tup' col_to_match"
    and "tup (col_to_match @ ''_qvals'') = tup' (col_to_match @ ''_qvals'')"
  shows "match_row ev mt col_to_match match_col opts gs tup
           = match_row ev mt col_to_match match_col opts gs tup'"
  unfolding match_row_def using assms by simp

lemma stale_rows:
  "itertuples ccs_df_stale
     = [row_of ccs_df_stale 0, row_of ccs_df_stale (Suc 0), row_of ccs_df_stale (Suc (Suc 0))]"
  by (simp add: itertuples_def nrows_def ccs_df_stale_def ccs_df_def upt_rec)

lemma stale_row_cells:
  "row_of ccs_df_stale i ''CCS'' = row_of ccs_df i ''CCS''"
  "row_of ccs_df_stale i (''CCS'' @ ''_qvals'') = row_of ccs_df i (''CCS'' @ ''_qvals'')"
  by (simp_all add: row_of_def get_cell_def ccs_df_stale_def ccs_df_def)

lemma stale_match_row:
  "match_row env0 ccs_matcher ''CCS'' ''barcoded'' default_match_opts [''barcode'', ''read'']
     (row_of ccs_df_stale i)
   = match_row env0 ccs_matcher ''CCS'' ''barcoded'' default_match_opts [''barcode'', ''read'']
     (row_of ccs_df i)"
  by (rule match_row_cong) (rule stale_row_cells)+

lemma stale_column_names:
  "column_names ccs_df_stale = [''name'', ''barcoded'', ''CCS'', ''CCS_qvals'', ''passes'']"
  by (simp add: column_names_def ccs_df_stale_def)

lemma stale_call:
  "matchSeqs env0 ccs_df_stale (Some ccs_match_str) ''CCS'' ''barcoded'' default_match_opts True
     = Inr ccs_df_barcoded"
proof -
  let ?newcols = "[''barcoded'', ''barcoded_polarity'', ''barcode'', ''read'',
                   ''barcode_accuracy'', ''read_accuracy'', ''barcode_qvals'', ''read_qvals'']"
  let ?d = "[(''barcoded'', [CBool True, CBool True, CBool False]),
         (''barcoded_polarity'', [CInt 1, CInt (- 1), CInt 0]),
         (''barcode'', [CStr ''TTC'', CStr ''AGA'', CStr []]),
         (''read'', [CStr ''ACG'', CStr ''GCA'', CStr []]),
         (''barcode_accuracy'',
            [CFloat (Fin (array_accuracy [30, 30, 30])),
             CFloat (Fin (array_accuracy [20, 30, 24])), CInt (- 1)]),
         (''read_accuracy'',
            [CFloat (Fin (array_accuracy [30, 30, 30])),
             CFloat (Fin (array_accuracy [30, 30, 30])), CInt (- 1)]),
         (''barcode_qvals'', [CArray [30, 30, 30], CArray [20, 30, 24], CArray []]),
         (''read_qvals'', [CArray [30, 30, 30], CArray [30, 30, 30], CArray []])]"
  have comp: "regex_compile env0 (re_expandIUPAC (NT_TO_REGEXP env0) ccs_match_str) = Inr ccs_matcher"
    by (simp add: env0_def ccs_expand ccs_compile)
  have gs: "match_groupnames default_match_opts ccs_matcher = [''barcode'', ''read'']"
    by (simp add: match_groupnames_def default_match_opts_def ccs_matcher_sel)
  have nc: "match_newcols ''barcoded'' default_match_opts [''barcode'', ''read''] = ?newcols"
    by (simp add: match_newcols_def default_match_opts_def)
  have nd: "new_dict ?newcols = map (\<lambda>c. (c, [])) ?newcols"
    by (simp add: new_dict_def dict_keys_def)
  have loop: "rows_loop (match_row env0 ccs_matcher ''CCS'' ''barcoded'' default_match_opts [''barcode'', ''read''])
                (itertuples ccs_df_stale) (new_dict ?newcols) = Inr ?d"
    by (simp add: stale_rows stale_match_row ccs_row0 ccs_row1 ccs_row2 nd dict_append_def)
  have add: "add_columns ccs_df_stale {''barcoded''} ?d = Inr ccs_df_barcoded"
    by (simp add: add_columns_def ccs_df_barcoded_def ccs_df_stale_def ccs_df_def nrows_def)
  show ?thesis
    unfolding matchSeqs_def
    by (simp add: comp gs nc loop add stale_column_names default_match_opts_sel Let_def)
qed

lemma aln_stale_column_names: "column_names aln_df_stale = [''gene_aligned'', ''name'', ''gene'']"
  by (simp add: column_names_def aln_df_stale_def)

lemma aln_stale_names:
  "map_of (columns aln_df_stale) ''name'' = Some [CStr ''read1'', CStr ''read2'', CStr ''read3'']"
  by (simp add: aln_df_stale_def)

lemma aln_stale_queries:
  "align_queries aln_df_stale ''gene'' [CStr ''read1'', CStr ''read2'', CStr ''read3'']
     = [(CStr ''read1'', CStr ''ACGTTCACGCTT''), (CStr ''read2'', CStr ''TTGTTCACGCAA'')]"
  by (simp add: align_queries_def aln_df_stale_def)

lemma aln_stale_rows:
  "align_rows aln_df_stale ''gene'' default_align_opts [CStr ''read1'', CStr ''read2'', CStr ''read3'']
     = [(CStr ''read1'', None), (CStr ''read2'', None), (CStr ''read3'', None)]"
  by (simp add: align_rows_def default_align_opts_sel upt_rec)

lemma aln_stale_call:
  "alignSeqs aln_df_stale mapper0 ''gene'' ''gene_aligned'' default_align_opts True
     = Inr aln_df_aligned"
proof -
  have dup: "fst ` set aln_new_columns \<inter> {''gene_aligned'', ''name'', ''gene''} = {''gene_aligned''}"
    by (auto simp: aln_new_columns_def)
  have add: "add_columns aln_df_stale {''gene_aligned''} aln_new_columns = Inr aln_df_aligned"
    by (simp add: add_columns_def aln_df_aligned_def aln_new_columns_def aln_df_stale_def
          aln_df_def nrows_def)
  have dist: "distinct (map fst aln_new_columns)"
    by (simp add: aln_new_columns_def)
  show ?thesis
    unfolding alignSeqs_def
    by (simp add: aln_newcols dist aln_stale_column_names aln_stale_names aln_stale_queries
          aln_mapper_map default_align_opts_sel aln_stale_rows aln_loop dup add Let_def
          del: rows_loop.simps)
qed

lemma stale_nrows: "nrows ccs_df_stale = 3"
  by (simp add: nrows_def ccs_df_stale_def ccs_df_def)

lemma aln_stale_nrows: "nrows aln_df_stale = 3"
  by (simp add: nrows_def aln_df_stale_def aln_df_def)

lemma stale_comp:
  "regex_compile env0
     (if expandIUPAC default_match_opts
      then re_expandIUPAC (NT_TO_REGEXP env0) ccs_match_str else ccs_match_str) = Inr ccs_matcher"
  by (simp add: env0_def ccs_expand ccs_compile default_match_opts_sel)

lemma stale_newcols:
  "match_newcols ''barcoded'' default_match_opts (match_groupnames default_match_opts ccs_matcher)
     = [''barcoded'', ''barcoded_polarity'', ''barcode'', ''read'',
        ''barcode_accuracy'', ''read_accuracy'', ''barcode_qvals'', ''read_qvals'']"
  by (simp add: match_newcols_def match_groupnames_def default_match_opts_def ccs_matcher_sel)

lemma stale_groupnames:
  "match_groupnames default_match_opts ccs_matcher = [''barcode'', ''read'']"
  by (simp add: match_groupnames_def default_match_opts_def ccs_matcher_sel)

lemma aln_stale_md:
  "mapper_map mapper0
     (align_queries aln_df_stale ''gene'' [CStr ''read1'', CStr ''read2'', CStr ''read3''])
     (paf_file default_align_opts) = Inr aln_map_dict"
  by (simp add: aln_stale_queries aln_mapper_map default_align_opts_sel)

text \<open>
  With \<^verbatim>\<open>match_str = None\<close> the match column may exist and \<^verbatim>\<open>overwrite\<close> be false: the
  table is returned and nothing is raised.
\<close>

theorem column_collision_policy_counterexample:
  "''barcoded'' \<in> set (column_names ccs_df_barcoded)
   \<and> matchSeqs env0 ccs_df_barcoded None ''CCS'' ''barcoded'' default_match_opts False
       = Inr ccs_df_barcoded"
  by (simp add: matchSeqs_def column_names_def ccs_df_barcoded_def)

text \<open>
  The tables with a stale column of the name of the match column and of the alignment
  column: without \<^verbatim>\<open>overwrite\<close> both calls raise, with \<^verbatim>\<open>overwrite\<close> the stale column is
  dropped and the new columns hold the cells of the rows.
\<close>

theorem column_collision_policy_witness:
  "''barcoded'' \<in> set (column_names ccs_df_stale)
   \<and> ''gene_aligned'' \<in> set (column_names aln_df_stale)
   \<and> (\<exists>e. matchSeqs env0 ccs_df_stale (Some ccs_match_str) ''CCS'' ''barcoded''
              default_match_opts False = Inl e)
   \<and> (\<exists>e. alignSeqs aln_df_stale mapper0 ''gene'' ''gene_aligned'' default_align_opts False
              = Inl e)
   \<and> matchSeqs env0 ccs_df_stale (Some ccs_match_str) ''CCS'' ''barcoded'' default_match_opts True
       = Inr ccs_df_barcoded
   \<and> column_names ccs_df_stale = [''name'', ''barcoded'', ''CCS'', ''CCS_qvals'', ''passes'']
   \<and> column_names ccs_df_barcoded
       = [''name'', ''CCS'', ''CCS_qvals'', ''passes'',
          ''barcoded'', ''barcoded_polarity'', ''barcode'', ''read'',
          ''barcode_accuracy'', ''read_accuracy'', ''barcode_qvals'', ''read_qvals'']
   \<and> get_cell ccs_df_stale ''barcoded'' 0 = Some CNone
   \<and> get_cell ccs_df_barcoded ''barcoded'' 0 = Some (CBool True)
   \<and> alignSeqs aln_df_stale mapper0 ''gene'' ''gene_aligned'' default_align_opts True
       = Inr aln_df_aligned
   \<and> column_names aln_df_aligned = [''name'', ''gene''] @ map fst aln_new_columns
   \<and> get_cell aln_df_aligned ''gene_aligned'' 0 = Some (CBool True)"
proof -
  let ?names = "[CStr ''read1'', CStr ''read2'', CStr ''read3'']"
  note T = column_collision_policy [where overwrite = False and match_col = "''barcoded''"
      and df = ccs_df_stale and ev = env0 and pat = ccs_match_str and col_to_match = "''CCS''"
      and opts = default_match_opts and mt = ccs_matcher and c = "''barcoded''"
      and c' = "''gene_aligned''" and aligned_col = "''gene_aligned''"
      and aopts = default_align_opts and adf = aln_df_stale and mapper = mapper0
      and query_col = "''gene''" and df' = ccs_df_barcoded and adf' = aln_df_aligned]
  have m1: "''barcoded'' \<in> set (column_names ccs_df_stale)"
    by (simp add: stale_column_names)
  have m2: "''gene_aligned'' \<in> set (column_names aln_df_stale)"
    by (simp add: aln_stale_column_names)
  have m3: "''barcoded'' \<in> set (match_newcols ''barcoded'' default_match_opts
                                    (match_groupnames default_match_opts ccs_matcher))"
    by (simp add: stale_newcols)
  have m4: "''gene_aligned'' \<in> set (align_newcols ''gene_aligned'' default_align_opts)"
    by (simp add: aln_newcols aln_new_columns_def)
  have h1: "\<not> False \<and> ''barcoded'' \<in> set (column_names ccs_df_stale)"
    using m1 by simp
  have h2: "\<not> False
        \<and> regex_compile env0
            (if expandIUPAC default_match_opts
             then re_expandIUPAC (NT_TO_REGEXP env0) ccs_match_str else ccs_match_str)
            = Inr ccs_matcher
        \<and> ''barcoded'' \<in> set (match_newcols ''barcoded'' default_match_opts
                                   (match_groupnames default_match_opts ccs_matcher))
        \<and> ''barcoded'' \<in> set (column_names ccs_df_stale)"
    using stale_comp m3 m1 by simp
  have h3: "\<not> False \<and> ''gene_aligned'' \<in> set (align_newcols ''gene_aligned'' default_align_opts)
              \<and> ''gene_aligned'' \<in> set (column_names aln_df_stale)"
    using m4 m2 by simp
  have h4: "matchSeqs env0 ccs_df_stale (Some ccs_match_str) ''CCS'' ''barcoded''
              default_match_opts True = Inr ccs_df_barcoded
        \<and> regex_compile env0
            (if expandIUPAC default_match_opts
             then re_expandIUPAC (NT_TO_REGEXP env0) ccs_match_str else ccs_match_str)
            = Inr ccs_matcher"
    using stale_call stale_comp by (rule conjI)
  note T1 = T [THEN conjunct1]
  note T2 = T [THEN conjunct2, THEN conjunct1]
  note T3 = T [THEN conjunct2, THEN conjunct2, THEN conjunct1]
  note T4 = T [THEN conjunct2, THEN conjunct2, THEN conjunct2, THEN conjunct1]
  note T5 = T [THEN conjunct2, THEN conjunct2, THEN conjunct2, THEN conjunct2]
  have e1: "\<exists>e. matchSeqs env0 ccs_df_stale (Some ccs_match_str) ''CCS'' ''barcoded''
              default_match_opts False = Inl e"
    using T1 h1 by (rule mp)
  have e2: "\<exists>e. matchSeqs env0 ccs_df_stale (Some ccs_match_str) ''CCS'' ''barcoded''
              default_match_opts False = Inl e"
    using T2 h2 by (rule mp)
  have e3: "\<exists>e. alignSeqs aln_df_stale mapper0 ''gene'' ''gene_aligned'' default_align_opts False
              = Inl e"
    using T3 h3 by (rule mp)
  note R4 = mp [OF T4 h4]
  note R5 = mp [OF T5 aln_stale_call]
  note c4 = R4 [THEN conjunct1]
  note r4 = R4 [THEN conjunct2, rule_format, of 0]
  note c5 = R5 [THEN conjunct1]
  note r5 = R5 [THEN conjunct2, rule_format, of 0]
  have cn: "column_names ccs_df_barcoded
       = [''name'', ''CCS'', ''CCS_qvals'', ''passes'',
          ''barcoded'', ''barcoded_polarity'', ''barcode'', ''read'',
          ''barcode_accuracy'', ''read_accuracy'', ''barcode_qvals'', ''read_qvals'']"
    unfolding c4 stale_newcols stale_column_names by (simp add: dict_keys_def)
  have an: "column_names aln_df_aligned = [''name'', ''gene''] @ map fst aln_new_columns"
    unfolding c5 aln_newcols aln_stale_column_names by (simp add: aln_new_columns_def)
  have "0 < nrows ccs_df_stale" by (simp add: stale_nrows)
  from r4 [OF this] obtain items where
    it: "match_row env0 ccs_matcher ''CCS'' ''barcoded'' default_match_opts
           (match_groupnames default_match_opts ccs_matcher) (row_of ccs_df_stale 0) = Inr items"
    and cells: "\<forall>k v. (k, v) \<in> set items \<longrightarrow> get_cell ccs_df_barcoded k 0 = Some v"
    by (elim exE conjE)
  from it have "(''barcoded'', CBool True) \<in> set items"
    unfolding stale_groupnames stale_match_row ccs_row0 by auto
  with cells [rule_format, of "''barcoded''" "CBool True"]
  have g4: "get_cell ccs_df_barcoded ''barcoded'' 0 = Some (CBool True)" .
  have "0 < nrows aln_df_stale" by (simp add: aln_stale_nrows)
  from r5 [OF this] obtain names map_dict aitems where
    nm: "map_of (columns aln_df_stale) ''name'' = Some names"
    and md: "mapper_map mapper0 (align_queries aln_df_stale ''gene'' names)
               (paf_file default_align_opts) = Inr map_dict"
    and ait: "align_row mapper0 map_dict ''gene_aligned'' default_align_opts
                (names ! 0,
                 if qvals_assigned default_align_opts
                 then get_cell aln_df_stale (''gene'' @ ''_qvals'') 0 else None) = Inr aitems"
    and acells: "\<forall>k v. (k, v) \<in> set aitems \<longrightarrow> get_cell aln_df_aligned k 0 = Some v"
    by (elim exE conjE)
  from nm have names: "names = ?names" by (simp add: aln_stale_names)
  from md have mdict: "map_dict = aln_map_dict" by (simp add: names aln_stale_md)
  have nq: "\<not> qvals_assigned default_align_opts"
    by (simp add: qvals_assigned_def default_align_opts_sel)
  from ait have "align_row mapper0 aln_map_dict ''gene_aligned'' default_align_opts
                   (CStr ''read1'', None) = Inr aitems"
    unfolding names mdict using nq by simp
  then have "(''gene_aligned'', CBool True) \<in> set aitems"
    unfolding aln_row1 by auto
  with acells [rule_format, of "''gene_aligned''" "CBool True"]
  have g5: "get_cell aln_df_aligned ''gene_aligned'' 0 = Some (CBool True)" .
  have g0: "get_cell ccs_df_stale ''barcoded'' 0 = Some CNone"
    by (simp add: get_cell_def ccs_df_stale_def)
  show ?thesis
    by (intro conjI)
       (rule m1 m2 e1 e3 stale_call stale_column_names cn g0 g4 aln_stale_call an g5)+
qed

end
